theory Spec2Isabelle
  imports Main "HOL-Library.Multiset" "HOL-Library.Sublist"
begin

section \<open>Data model of tox.py\<close>

text \<open>
  A record of the table of contents is the Python tuple \<open>(chapter_number, title, page)\<close>.
  The first two components are strings. The third is dynamically typed in the source:
  \<open>tokenize\<close> yields the matched text, \<open>apply_page_offset\<close> yields an integer. Both
  shapes are kept apart by the constructors of \<open>page\<close>, so that Python's \<open>==\<close> on
  tuples (a string never equals an integer) is HOL's equality.

  A \<open>string\<close> is a list of characters; one \<open>char\<close> stands for one character of the
  text (the 8-bit range of Python's code points).
\<close>

datatype page = PStr string | PInt int

type_synonym toc_record = "string \<times> string \<times> page"

definition chapter_number :: "toc_record \<Rightarrow> string" where
  "chapter_number r = fst r"

definition title_of :: "toc_record \<Rightarrow> string" where
  "title_of r = fst (snd r)"

definition page_of :: "toc_record \<Rightarrow> page" where
  "page_of r = snd (snd r)"

text \<open>The exceptions of the source that are not caught where they are raised.\<close>

datatype error = ValueError

text \<open>A node of the tree is the tuple \<open>(node_data, children)\<close> built by \<open>tree_ize\<close>.\<close>

datatype node = Node toc_record "node list"

fun node_data :: "node \<Rightarrow> toc_record" where
  "node_data (Node d ch) = d"

fun node_children :: "node \<Rightarrow> node list" where
  "node_children (Node d ch) = ch"

section \<open>The tokenizer\<close>

text \<open>
  The two patterns of \<open>tokenize\<close> use character classes, greedy repetition of a class,
  one greedy optional group, capturing groups and the anchors \<open>^\<close> and \<open>$\<close>. A pattern
  of this fragment is a value of \<open>regex\<close>.
\<close>

datatype regex =
    Cls "char \<Rightarrow> bool"
  | Star "char \<Rightarrow> bool"
  | Plus "char \<Rightarrow> bool"
  | Opt regex
  | Seq regex regex
  | Group regex
  | Bol
  | Eol

text \<open>
  A matcher state is the number of characters consumed, the rest of the subject and the
  texts of the groups closed so far. \<open>run r st\<close> lists the states in which a match of
  \<open>r\<close> from \<open>st\<close> can end, in the order in which the backtracking matcher tries them:
  a greedy repetition first takes all it can and gives back one character at a time, a
  greedy option first tries its body. \<open>$\<close> holds at the end of the subject and just before
  a newline that ends it; \<open>^\<close> holds where nothing is consumed yet.
\<close>

type_synonym mstate = "nat \<times> string \<times> string list"

fun run :: "regex \<Rightarrow> mstate \<Rightarrow> mstate list" where
  "run (Cls P) (pos, s, gs) =
     (case s of [] \<Rightarrow> [] | c # cs \<Rightarrow> if P c then [(Suc pos, cs, gs)] else [])"
| "run (Star P) (pos, s, gs) =
     map (\<lambda>j. (pos + j, drop j s, gs)) (rev [0..<Suc (length (takeWhile P s))])"
| "run (Plus P) (pos, s, gs) =
     map (\<lambda>j. (pos + j, drop j s, gs)) (rev [1..<Suc (length (takeWhile P s))])"
| "run (Opt r) st = run r st @ [st]"
| "run (Seq r1 r2) st = concat (map (run r2) (run r1 st))"
| "run (Group r) (pos, s, gs) =
     map (\<lambda>(pos', s', gs'). (pos', s', gs' @ [take (pos' - pos) s])) (run r (pos, s, gs))"
| "run Bol (pos, s, gs) = (if pos = 0 then [(pos, s, gs)] else [])"
| "run Eol (pos, s, gs) = (if s = [] \<or> s = [CHR 0x0A] then [(pos, s, gs)] else [])"

declare run.simps [simp del]

text \<open>
  \<open>re.match(r, line)\<close> tries the pattern at the start of the line and takes the first
  way it matches; \<open>.groups()\<close> of the match is the list of the group texts. No match
  is \<open>None\<close>.
\<close>

definition re_match :: "regex \<Rightarrow> string \<Rightarrow> string list option" where
  "re_match r line =
     (case run r (0, line, []) of [] \<Rightarrow> None | (pos, s, gs) # _ \<Rightarrow> Some gs)"

text \<open>The classes \<open>\s\<close>, \<open>[A-Z]\<close>, \<open>[0-9.]\<close>, \<open>\d\<close> and \<open>.\<close> (any character but newline).\<close>

definition is_digit :: "char \<Rightarrow> bool" where
  "is_digit c = (c \<in> set ''0123456789'')"

definition is_space :: "char \<Rightarrow> bool" where
  "is_space c =
     (c \<in> set [CHR 0x09, CHR 0x0A, CHR 0x0B, CHR 0x0C, CHR 0x0D, CHR 0x1C, CHR 0x1D,
               CHR 0x1E, CHR 0x1F, CHR 0x20, CHR 0x85, CHR 0xA0])"

definition is_upper :: "char \<Rightarrow> bool" where
  "is_upper c = (c \<in> set ''ABCDEFGHIJKLMNOPQRSTUVWXYZ'')"

definition is_digit_or_dot :: "char \<Rightarrow> bool" where
  "is_digit_or_dot c = (is_digit c \<or> c = CHR ''.'')"

definition not_newline :: "char \<Rightarrow> bool" where
  "not_newline c = (c \<noteq> CHR 0x0A)"

text \<open>
  \<open>reg\<close> is \<^verbatim>\<open>^((?:[A-Z]\.)?[0-9.]*)\s(.*)\s(\d+)$\<close> and \<open>alt\<close> is
  \<^verbatim>\<open>^(.*)\s(\d+)$\<close>.
\<close>

definition reg :: regex where
  "reg =
     Seq Bol
    (Seq (Group (Seq (Opt (Seq (Cls is_upper) (Cls (\<lambda>c. c = CHR ''.'')))) (Star is_digit_or_dot)))
    (Seq (Cls is_space)
    (Seq (Group (Star not_newline))
    (Seq (Cls is_space)
    (Seq (Group (Plus is_digit)) Eol)))))"

definition alt :: regex where
  "alt =
     Seq Bol
    (Seq (Group (Star not_newline))
    (Seq (Cls is_space)
    (Seq (Group (Plus is_digit)) Eol)))"

text \<open>
  \<open>str(i)\<close> of a Python integer: its decimal digits, most significant first, after a
  minus sign when it is negative.
\<close>

definition digit_char :: "nat \<Rightarrow> char" where
  "digit_char d = ''0123456789'' ! d"

function digits_of_nat :: "nat \<Rightarrow> string" where
  "digits_of_nat n =
     (if n < 10 then [digit_char n]
      else digits_of_nat (n div 10) @ [digit_char (n mod 10)])"
  by pat_completeness auto
termination
  by (relation "measure id") auto

declare digits_of_nat.simps [simp del]

definition str_int :: "int \<Rightarrow> string" where
  "str_int i = (if i < 0 then CHR ''-'' # digits_of_nat (nat (- i)) else digits_of_nat (nat i))"

text \<open>
  What \<open>tokenize\<close> does is a sequence of events: a record yielded, or a line printed.
  Its local variables \<open>prev_num\<close> and \<open>cnt\<close> are the state carried from line to line.
\<close>

datatype event = Yield toc_record | Print string

record tok_state =
  prev_num :: string
  cnt :: int

text \<open>
  The body of the loop for one line. When \<open>reg\<close> matches, its three groups are the
  record, \<open>prev_num\<close> becomes the chapter number and \<open>cnt\<close> becomes 1. Otherwise (the
  exception is caught) \<open>alt\<close> is tried: its two groups are title and page, the chapter
  number is \<open>"{}.{}".format(prev_num, cnt)\<close> and \<open>cnt\<close> is incremented. When that fails
  too, the line is printed after \<open>Skipping toc line: \<close> and nothing is yielded.
\<close>

definition tokenize_line :: "tok_state \<Rightarrow> string \<Rightarrow> tok_state \<times> event" where
  "tokenize_line st line =
     (case re_match reg line of
        Some [num, title, page] \<Rightarrow>
          (\<lparr>prev_num = num, cnt = 1\<rparr>, Yield (num, title, PStr page))
      | _ \<Rightarrow>
          (case re_match alt line of
             Some [title, page] \<Rightarrow>
               (st\<lparr>cnt := cnt st + 1\<rparr>,
                Yield (prev_num st @ ''.'' @ str_int (cnt st), title, PStr page))
           | _ \<Rightarrow> (st, Print (''Skipping toc line: '' @ line))))"

fun tokenize_lines :: "tok_state \<Rightarrow> string list \<Rightarrow> event list" where
  "tokenize_lines st [] = []"
| "tokenize_lines st (line # lines) =
     (case tokenize_line st line of (st', ev) \<Rightarrow> ev # tokenize_lines st' lines)"

text \<open>The values of \<open>prev_num\<close> and \<open>cnt\<close> after the loop has run over some lines.\<close>

fun tokenize_state :: "tok_state \<Rightarrow> string list \<Rightarrow> tok_state" where
  "tokenize_state st [] = st"
| "tokenize_state st (line # lines) = tokenize_state (fst (tokenize_line st line)) lines"

text \<open>
  \<open>tokenize\<close> on the lines of the file: the events from the initial state
  \<open>prev_num = ''\<close>, \<open>cnt = 1\<close>, and the records among them.
\<close>

definition tokenize_events :: "string list \<Rightarrow> event list" where
  "tokenize_events lines = tokenize_lines \<lparr>prev_num = [], cnt = 1\<rparr> lines"

fun yielded :: "event \<Rightarrow> toc_record list" where
  "yielded (Yield r) = [r]"
| "yielded (Print s) = []"

definition tokenize :: "string list \<Rightarrow> toc_record list" where
  "tokenize lines = concat (map yielded (tokenize_events lines))"

text \<open>
  The fallback numbering as the specification words it. The previous chapter number is
  that of the last line before the current one on which the primary pattern succeeded
  (the empty string when there is none). The subcounter is 1 after a success of the
  primary pattern and grows by one with each fallback match since.
\<close>

definition primary_ok :: "string \<Rightarrow> bool" where
  "primary_ok line = (case re_match reg line of Some [num, title, page] \<Rightarrow> True | _ \<Rightarrow> False)"

definition fallback_ok :: "string \<Rightarrow> bool" where
  "fallback_ok line =
     (\<not> primary_ok line \<and>
      (case re_match alt line of Some [title, page] \<Rightarrow> True | _ \<Rightarrow> False))"

definition previous_chapter_number :: "string list \<Rightarrow> string" where
  "previous_chapter_number before =
     (case dropWhile (\<lambda>l. \<not> primary_ok l) (rev before) of
        [] \<Rightarrow> []
      | l # _ \<Rightarrow> (case re_match reg l of Some (num # _) \<Rightarrow> num | _ \<Rightarrow> []))"

definition running_subcounter :: "string list \<Rightarrow> int" where
  "running_subcounter before =
     1 + int (length (filter fallback_ok (takeWhile (\<lambda>l. \<not> primary_ok l) (rev before))))"

text \<open>
  The page text of a line: a non-empty run of decimal digits that ends the line, or
  ends it but for the final newline.
\<close>

definition page_text :: "string \<Rightarrow> string \<Rightarrow> bool" where
  "page_text line d \<longleftrightarrow>
     d \<noteq> [] \<and> list_all is_digit d \<and> (suffix d line \<or> suffix (d @ [CHR 0x0A]) line)"

section \<open>The tree builder\<close>

text \<open>\<open>n.startswith(num)\<close> on two strings.\<close>

definition startswith :: "string \<Rightarrow> string \<Rightarrow> bool" where
  "startswith n num = (take (length num) n = num)"

text \<open>
  \<open>get_matching_prfx(parent_rec, records)\<close>: the list comprehension keeps, in order and
  with repetitions, the records whose chapter number starts with the parent's.
\<close>

definition get_matching_prfx :: "toc_record \<Rightarrow> toc_record list \<Rightarrow> toc_record list" where
  "get_matching_prfx parent_rec records =
     (case parent_rec of (num, title, page) \<Rightarrow>
        filter (\<lambda>(n, t, p). startswith n num) records)"

text \<open>
  \<open>records.remove(child)\<close> deletes the first element equal to \<open>child\<close> and raises
  ValueError when there is none.
\<close>

fun list_remove :: "'a \<Rightarrow> 'a list \<Rightarrow> error + 'a list" where
  "list_remove x [] = Inl ValueError"
| "list_remove x (y # ys) =
     (if y = x then Inr ys
      else (case list_remove x ys of Inl e \<Rightarrow> Inl e | Inr r \<Rightarrow> Inr (y # r)))"

text \<open>The loop \<open>for child in children: records.remove(child)\<close>.\<close>

fun remove_each :: "'a list \<Rightarrow> 'a list \<Rightarrow> error + 'a list" where
  "remove_each [] records = Inr records"
| "remove_each (child # cs) records =
     (case list_remove child records of
        Inl e \<Rightarrow> Inl e
      | Inr records' \<Rightarrow> remove_each cs records')"

lemma list_remove_mset:
  "list_remove x ys = Inr r \<Longrightarrow> mset ys = add_mset x (mset r)"
  by (induction ys arbitrary: r) (auto split: if_splits sum.splits)

lemma remove_each_mset:
  "remove_each cs ys = Inr r \<Longrightarrow> mset ys = mset cs + mset r"
  by (induction cs arbitrary: ys) (auto split: sum.splits dest: list_remove_mset)

lemma remove_each_length:
  "remove_each cs ys = Inr r \<Longrightarrow> length ys = length cs + length r"
  by (drule remove_each_mset) (metis size_mset size_union)

text \<open>
  \<open>tree_ize(records, find_children)\<close>. The generator pops the first record, asks
  \<open>find_children\<close> for its children among the remaining ones, removes them from the
  pool, builds the subtree and goes on with what is left; popping from the empty list
  raises IndexError, which ends the generator. The recursive call is
  \<open>tree_ize(children)\<close>: it does not pass \<open>find_children\<close> on, so subtrees are always
  grouped by \<open>get_matching_prfx\<close>. A ValueError of \<open>remove\<close> is not caught.

  Here \<open>find_children\<close> hands back a list of its own, as \<open>get_matching_prfx\<close> does
  with its list comprehension. What the loop does when the object handed back is the
  pool itself, or a lazy iterator over it, is \<open>tree_ize_obj\<close> below.
\<close>

function tree_ize ::
  "(toc_record \<Rightarrow> toc_record list \<Rightarrow> toc_record list) \<Rightarrow> toc_record list \<Rightarrow> error + node list"
where
  "tree_ize find_children [] = Inr []"
| "tree_ize find_children (parent # records) =
     (case remove_each (find_children parent records) records of
        Inl e \<Rightarrow> Inl e
      | Inr records' \<Rightarrow>
          (case tree_ize get_matching_prfx (find_children parent records) of
             Inl e \<Rightarrow> Inl e
           | Inr sub \<Rightarrow>
               (case tree_ize find_children records' of
                  Inl e \<Rightarrow> Inl e
                | Inr rest \<Rightarrow> Inr (Node parent sub # rest))))"
  by pat_completeness auto
termination
  by (relation "measure (\<lambda>(fc, recs). length recs)")
     (auto dest: remove_each_length)

text \<open>
  Depth-first pre-order traversal, as the specification words it: a node comes first,
  then the traversal of its children from left to right, then its later siblings.
  \<open>flatten\<close> reads the record of every node met on the way.
\<close>

fun preorder_node :: "node \<Rightarrow> node list" where
  "preorder_node (Node d ch) = Node d ch # concat (map preorder_node ch)"

definition preorder :: "node list \<Rightarrow> node list" where
  "preorder tree = concat (map preorder_node tree)"

definition flatten :: "node list \<Rightarrow> toc_record list" where
  "flatten tree = map node_data (preorder tree)"

section \<open>The tree builder on any object that find_children returns\<close>

text \<open>
  The loop \<open>for child in children: records.remove(child)\<close> iterates the object that
  \<open>find_children\<close> returned while it removes from the pool. Three kinds of object are
  told apart: a sequence of its own (a list or tuple built by the function), the pool
  list itself, and a lazy iterator over the pool that keeps the records satisfying a
  predicate (\<open>filter\<close>, a generator expression, \<open>iter\<close>).
\<close>

datatype children_obj = ListObj "toc_record list" | PoolObj | LazyObj "toc_record \<Rightarrow> bool"

text \<open>
  Iterating the pool while removing from it. The list iterator keeps an index \<open>i\<close>: it
  stops when \<open>i\<close> is no longer inside the list as it is now, and otherwise reads the
  element at \<open>i\<close> and moves on. An element that passes the predicate is handed to the
  loop body, which removes its first occurrence from the pool, so that the elements behind
  it move one place down.
\<close>

function remove_while_iterating :: "('a \<Rightarrow> bool) \<Rightarrow> nat \<Rightarrow> 'a list \<Rightarrow> error + 'a list" where
  "remove_while_iterating P i records =
     (if i < length records
      then (if P (records ! i)
            then (case list_remove (records ! i) records of
                    Inl e \<Rightarrow> Inl e
                  | Inr records' \<Rightarrow> remove_while_iterating P (Suc i) records')
            else remove_while_iterating P (Suc i) records)
      else Inr records)"
  by pat_completeness auto
termination
  by (relation "measure (\<lambda>(P, i, records). length records - i)")
     (auto dest: list_remove_mset [THEN arg_cong [where f = size]])

declare remove_while_iterating.simps [simp del]

text \<open>The pool after the loop, for each kind of object.\<close>

fun remove_children :: "children_obj \<Rightarrow> toc_record list \<Rightarrow> error + toc_record list" where
  "remove_children (ListObj cs) records = remove_each cs records"
| "remove_children PoolObj records = remove_while_iterating (\<lambda>r. True) 0 records"
| "remove_children (LazyObj P) records = remove_while_iterating P 0 records"

text \<open>
  \<open>list(records)\<close> at the start of the recursive call \<open>tree_ize(children)\<close>, after the
  loop: the sequence itself, a copy of the pool as the loop left it, or nothing, the
  iterator being used up.
\<close>

fun children_list :: "children_obj \<Rightarrow> toc_record list \<Rightarrow> toc_record list" where
  "children_list (ListObj cs) records' = cs"
| "children_list PoolObj records' = records'"
| "children_list (LazyObj P) records' = []"

text \<open>The default \<open>find_children\<close>, as a function that returns an object.\<close>

definition default_children :: "toc_record \<Rightarrow> toc_record list \<Rightarrow> children_obj" where
  "default_children parent records = ListObj (get_matching_prfx parent records)"

text \<open>
  \<open>tree_ize\<close> with a bound on how far it may go on: the next pass through
  \<open>while True\<close> and the recursive call on the children each get a bound one lower,
  and \<open>None\<close> says that the bound was reached before the generator was done. Nothing
  in the definition says that it ever is done.
\<close>

fun tree_ize_obj ::
  "nat \<Rightarrow> (toc_record \<Rightarrow> toc_record list \<Rightarrow> children_obj) \<Rightarrow> toc_record list
     \<Rightarrow> (error + node list) option"
where
  "tree_ize_obj 0 find_children records = None"
| "tree_ize_obj (Suc fuel) find_children [] = Some (Inr [])"
| "tree_ize_obj (Suc fuel) find_children (parent # records) =
     (case remove_children (find_children parent records) records of
        Inl e \<Rightarrow> Some (Inl e)
      | Inr records' \<Rightarrow>
          (case tree_ize_obj fuel default_children
                  (children_list (find_children parent records) records') of
             None \<Rightarrow> None
           | Some (Inl e) \<Rightarrow> Some (Inl e)
           | Some (Inr sub) \<Rightarrow>
               (case tree_ize_obj fuel find_children records' of
                  None \<Rightarrow> None
                | Some (Inl e) \<Rightarrow> Some (Inl e)
                | Some (Inr rest) \<Rightarrow> Some (Inr (Node parent sub # rest)))))"


section \<open>The bookmark emitter\<close>

text \<open>
  What \<open>format\<close> puts in place of \<open>{page}\<close>: the text itself for a string, \<open>str\<close>
  of the number for an integer.
\<close>

fun str_page :: "page \<Rightarrow> string" where
  "str_page (PStr s) = s"
| "str_page (PInt i) = str_int i"

text \<open>
  \<open>pdfmark_toc(tree)\<close>. For each node in turn: one line without \<open>/Count\<close> when
  \<open>len(children) == 0\<close>; otherwise one line with \<open>/Count -len(children)\<close>, followed
  by the lines of \<open>pdfmark_toc(children)\<close>. Every line ends with a newline character.
\<close>

function pdfmark_toc :: "node list \<Rightarrow> string list" where
  "pdfmark_toc [] = []"
| "pdfmark_toc (Node (num, title, page) children # tree) =
     (if length children = 0
      then [''[/Title ('' @ num @ '': '' @ title @ '') /Page '' @ str_page page
              @ '' /OUT pdfmark'' @ [CHR 0x0A]]
      else (''[/Count -'' @ str_int (int (length children)) @ '' /Title ('' @ num @ '': ''
              @ title @ '') /Page '' @ str_page page @ '' /OUT pdfmark'' @ [CHR 0x0A])
           # pdfmark_toc children)
     @ pdfmark_toc tree"
  by pat_completeness auto
termination
  by (relation "measure (size_list size)") auto

text \<open>
  The directive line of one node, by the two output forms of the specification: the
  leaf form, and the branch form with the number of direct children.
\<close>

fun directive :: "node \<Rightarrow> string" where
  "directive (Node (num, title, page) ch) =
     (if ch = []
      then ''[/Title ('' @ num @ '': '' @ title @ '') /Page '' @ str_page page
             @ '' /OUT pdfmark'' @ [CHR 0x0A]
      else ''[/Count -'' @ str_int (int (length ch)) @ '' /Title ('' @ num @ '': '' @ title
             @ '') /Page '' @ str_page page @ '' /OUT pdfmark'' @ [CHR 0x0A])"

section \<open>The page offset normaliser\<close>

text \<open>
  \<open>int(page)\<close>. An integer is returned as it is. A string is stripped of surrounding
  white space, may start with one sign, and must then consist of decimal digits, with
  single underscores allowed between digits; anything else raises ValueError.
  Integers are Python's unbounded ones. The interpreter's configurable cap on the number
  of digits it converts between text and integer is not part of the model.
\<close>

definition digit_val :: "char \<Rightarrow> nat" where
  "digit_val c = length (takeWhile (\<lambda>d. d \<noteq> c) ''0123456789'')"

definition digits_val :: "string \<Rightarrow> nat" where
  "digits_val s = foldl (\<lambda>a c. 10 * a + digit_val c) 0 s"

definition is_int_space :: "char \<Rightarrow> bool" where
  "is_int_space c =
     (c \<in> set [CHR 0x09, CHR 0x0A, CHR 0x0B, CHR 0x0C, CHR 0x0D, CHR 0x20, CHR 0x85, CHR 0xA0])"

fun int_body_ok :: "string \<Rightarrow> bool" where
  "int_body_ok [] = False"
| "int_body_ok [c] = is_digit c"
| "int_body_ok (c # d # cs) =
     (is_digit c \<and> (if d = CHR ''_'' then int_body_ok cs else int_body_ok (d # cs)))"

definition int_of_str :: "string \<Rightarrow> error + int" where
  "int_of_str s =
     (let t = rev (dropWhile is_int_space (rev (dropWhile is_int_space s)));
          neg = (t \<noteq> [] \<and> hd t = CHR ''-'');
          body = (if t \<noteq> [] \<and> (hd t = CHR ''-'' \<or> hd t = CHR ''+'') then tl t else t)
      in if int_body_ok body
         then Inr ((if neg then - 1 else 1) * int (digits_val (filter (\<lambda>c. c \<noteq> CHR ''_'') body)))
         else Inl ValueError)"

fun py_int :: "page \<Rightarrow> error + int" where
  "py_int (PInt i) = Inr i"
| "py_int (PStr s) = int_of_str s"

text \<open>
  \<open>apply_page_offset(records, offset)\<close>: one output record per input record, in order,
  with the page replaced by \<open>int(page) + offset\<close>. A page that \<open>int\<close> rejects raises
  ValueError, which ends the generator.
\<close>

fun apply_page_offset :: "toc_record list \<Rightarrow> int \<Rightarrow> error + toc_record list" where
  "apply_page_offset [] offset = Inr []"
| "apply_page_offset ((num, title, page) # records) offset =
     (case py_int page of
        Inl e \<Rightarrow> Inl e
      | Inr i \<Rightarrow>
          (case apply_page_offset records offset of
             Inl e \<Rightarrow> Inl e
           | Inr rest \<Rightarrow> Inr ((num, title, PInt (i + offset)) # rest)))"

section \<open>The chunk writer\<close>

text \<open>
  \<open>range(start, stop, step)\<close> as the list of its values; a zero step raises ValueError.
\<close>

definition py_range :: "int \<Rightarrow> int \<Rightarrow> int \<Rightarrow> error + int list" where
  "py_range start stop step =
     (if step = 0 then Inl ValueError
      else if 0 < step
      then Inr (map (\<lambda>k. start + int k * step) [0..<nat ((stop - start + step - 1) div step)])
      else Inr (map (\<lambda>k. start + int k * step)
                  [0..<nat ((start - stop - step - 1) div (- step))]))"

text \<open>
  The slice \<open>l[a:b]\<close>: a negative bound counts from the end, and both bounds are clipped
  to the list; the slice is empty when the bounds cross.
\<close>

definition slice_index :: "nat \<Rightarrow> int \<Rightarrow> nat" where
  "slice_index len i = (if i < 0 then nat (max 0 (int len + i)) else min len (nat i))"

definition py_slice :: "'a list \<Rightarrow> int \<Rightarrow> int \<Rightarrow> 'a list" where
  "py_slice l a b =
     (let lo = slice_index (length l) a; hi = slice_index (length l) b
      in take (hi - lo) (drop lo l))"

text \<open>
  \<open>splitfiles(l, n)\<close>: for each \<open>i\<close> of \<open>range(0, len(l), n)\<close> the pair
  \<open>(i, l[i:i+n])\<close>.
\<close>

definition splitfiles :: "'a list \<Rightarrow> int \<Rightarrow> error + (int \<times> 'a list) list" where
  "splitfiles l n =
     (case py_range 0 (int (length l)) n of
        Inl e \<Rightarrow> Inl e
      | Inr is \<Rightarrow> Inr (map (\<lambda>i. (i, py_slice l i (i + n))) is))"

section \<open>What the two patterns capture\<close>

text \<open>
  Membership in the result list of \<open>run\<close>, constructor by constructor, and from there
  the shape of the groups of \<open>reg\<close> and \<open>alt\<close>: the last group is the page text of the
  line.
\<close>

lemma in_run_Seq:
  "st'' \<in> set (run (Seq r1 r2) st) \<longleftrightarrow> (\<exists>st'\<in>set (run r1 st). st'' \<in> set (run r2 st'))"
  by (simp add: run.simps)

lemma in_run_Cls:
  "(pos', s', gs') \<in> set (run (Cls P) (pos, s, gs)) \<longleftrightarrow>
     (\<exists>c. s = c # s' \<and> P c \<and> pos' = Suc pos \<and> gs' = gs)"
  by (cases s) (auto simp: run.simps)

lemma in_run_Star:
  "(pos', s', gs') \<in> set (run (Star P) (pos, s, gs)) \<longleftrightarrow>
     (\<exists>j. j \<le> length (takeWhile P s) \<and> pos' = pos + j \<and> s' = drop j s \<and> gs' = gs)"
  by (auto simp del: upt_Suc simp: run.simps less_Suc_eq_le)

lemma in_run_Plus:
  "(pos', s', gs') \<in> set (run (Plus P) (pos, s, gs)) \<longleftrightarrow>
     (\<exists>j. 1 \<le> j \<and> j \<le> length (takeWhile P s) \<and> pos' = pos + j \<and> s' = drop j s \<and> gs' = gs)"
  by (auto simp del: upt_Suc simp: run.simps less_Suc_eq_le)

lemma in_run_Opt:
  "st' \<in> set (run (Opt r) st) \<longleftrightarrow> st' \<in> set (run r st) \<or> st' = st"
  by (auto simp: run.simps)

lemma in_run_Group:
  "(pos', s', gs') \<in> set (run (Group r) (pos, s, gs)) \<longleftrightarrow>
     (\<exists>gs0. (pos', s', gs0) \<in> set (run r (pos, s, gs)) \<and> gs' = gs0 @ [take (pos' - pos) s])"
  by (force simp: run.simps)

lemma in_run_Eol:
  "(pos', s', gs') \<in> set (run Eol (pos, s, gs)) \<longleftrightarrow>
     ((s = [] \<or> s = [CHR 0x0A]) \<and> pos' = pos \<and> s' = s \<and> gs' = gs)"
  by (auto simp: run.simps)

lemma take_within_takeWhile:
  "j \<le> length (takeWhile P s) \<Longrightarrow> list_all P (take j s)"
proof (induction s arbitrary: j)
  case Nil
  then show ?case by simp
next
  case (Cons c s)
  then show ?case by (cases j) (auto split: if_splits)
qed

lemma star_group:
  assumes "(pos', s', gs') \<in> set (run (Group (Star P)) (pos, s, gs))"
  shows "\<exists>j. j \<le> length s \<and> pos' = pos + j \<and> s' = drop j s \<and> gs' = gs @ [take j s]"
proof -
  from assms obtain j where "j \<le> length (takeWhile P s)" "pos' = pos + j" "s' = drop j s"
    "gs' = gs @ [take (pos' - pos) s]"
    by (auto simp: in_run_Group in_run_Star)
  moreover have "length (takeWhile P s) \<le> length s" by (rule length_takeWhile_le)
  ultimately show ?thesis by auto
qed

lemma num_group:
  assumes "(pos', s', gs') \<in>
     set (run (Group (Seq (Opt (Seq (Cls U) (Cls D))) (Star P))) (pos, s, gs))"
  shows "\<exists>j. j \<le> length s \<and> pos' = pos + j \<and> s' = drop j s \<and> gs' = gs @ [take j s]"
proof -
  from assms obtain p1 s1 g1 gs0 where
    o: "(p1, s1, g1) \<in> set (run (Opt (Seq (Cls U) (Cls D))) (pos, s, gs))" and
    r: "(pos', s', gs0) \<in> set (run (Star P) (p1, s1, g1))" and
    g: "gs' = gs0 @ [take (pos' - pos) s]"
    by (auto simp: in_run_Group in_run_Seq)
  from o have "g1 = gs \<and> ((p1 = pos \<and> s1 = s) \<or> (\<exists>c d. s = c # d # s1 \<and> p1 = pos + 2))"
    by (auto simp: in_run_Opt in_run_Seq in_run_Cls)
  then have "\<exists>i. i \<le> length s \<and> p1 = pos + i \<and> s1 = drop i s \<and> g1 = gs"
  proof (elim conjE disjE exE)
    assume "g1 = gs" "p1 = pos" "s1 = s"
    then show ?thesis by (intro exI [of _ 0]) simp
  next
    fix c d
    assume "g1 = gs" "s = c # d # s1" "p1 = pos + 2"
    then show ?thesis by (intro exI [of _ 2]) simp
  qed
  then obtain i where i: "i \<le> length s" "p1 = pos + i" "s1 = drop i s" "g1 = gs"
    by blast
  from r obtain j where j: "j \<le> length (takeWhile P s1)" "pos' = p1 + j" "s' = drop j s1"
    "gs0 = g1"
    by (auto simp: in_run_Star)
  have "length (takeWhile P s1) \<le> length s1" by (rule length_takeWhile_le)
  with i j have "i + j \<le> length s" "pos' = pos + (i + j)" "s' = drop (i + j) s"
    by (simp_all add: add.commute)
  with g i j show ?thesis by (intro exI [of _ "i + j"]) simp
qed

lemma tail_match:
  assumes "(pos', s', gs') \<in>
     set (run (Seq (Cls is_space) (Seq (Group (Plus is_digit)) Eol)) (pos, s, gs))"
  shows "\<exists>c d. s = c # d @ s' \<and> is_space c \<and> d \<noteq> [] \<and> list_all is_digit d \<and>
           (s' = [] \<or> s' = [CHR 0x0A]) \<and> gs' = gs @ [d]"
proof -
  from assms obtain c cs j where
    s: "s = c # cs" "is_space c" and
    j: "1 \<le> j" "j \<le> length (takeWhile is_digit cs)" and
    e: "s' = drop j cs" "s' = [] \<or> s' = [CHR 0x0A]" and
    g: "gs' = gs @ [take j cs]"
    by (auto simp: in_run_Seq in_run_Cls in_run_Group in_run_Plus in_run_Eol)
  have "length (takeWhile is_digit cs) \<le> length cs" by (rule length_takeWhile_le)
  with j have "take j cs \<noteq> []" by auto
  moreover have "list_all is_digit (take j cs)"
    using j(2) by (rule take_within_takeWhile)
  moreover have "s = c # take j cs @ s'"
    by (simp add: s e)
  ultimately show ?thesis using s e g by blast
qed


lemma page_text_tail:
  assumes "suffix s line" "s = c # d @ s'" "d \<noteq> []" "list_all is_digit d"
    "s' = [] \<or> s' = [CHR 0x0A]"
  shows "page_text line d"
proof -
  have "suffix (d @ s') s"
    unfolding assms(2) by (rule suffix_ConsI) simp
  with assms(1) have "suffix (d @ s') line"
    by (rule suffix_order.trans [rotated])
  with assms(3,4,5) show ?thesis
    by (auto simp: page_text_def)
qed

lemma first_of_run:
  "re_match r line = Some gs \<Longrightarrow> \<exists>pos s. (pos, s, gs) \<in> set (run r (0, line, []))"
  by (auto simp: re_match_def split: list.splits)

lemma alt_groups:
  assumes "re_match alt line = Some gs"
  shows "\<exists>title d. gs = [title, d] \<and> page_text line d"
proof -
  from first_of_run [OF assms] obtain pos s where
    "(pos, s, gs) \<in> set (run alt (0, line, []))" by blast
  then obtain st1 st2 where
    b: "st1 \<in> set (run Bol (0, line, []))" and
    t: "st2 \<in> set (run (Group (Star not_newline)) st1)" and
    e: "(pos, s, gs) \<in> set (run (Seq (Cls is_space) (Seq (Group (Plus is_digit)) Eol)) st2)"
    unfolding alt_def in_run_Seq by blast
  from b have st1: "st1 = (0, line, [])" by (simp add: run.simps)
  obtain p2 s2 g2 where c2: "st2 = (p2, s2, g2)" by (cases st2)
  from t have "(p2, s2, g2) \<in> set (run (Group (Star not_newline)) (0, line, []))"
    unfolding st1 c2 .
  from star_group [OF this] obtain j where st2: "st2 = (j, drop j line, [take j line])"
    unfolding c2 by auto
  from tail_match [OF e [unfolded st2]] obtain c d where
    d: "drop j line = c # d @ s" "d \<noteq> []" "list_all is_digit d"
      "s = [] \<or> s = [CHR 0x0A]" "gs = [take j line, d]"
    by auto
  have "page_text line d"
    using suffix_drop d(1,2,3,4) by (rule page_text_tail)
  with d(5) show ?thesis by blast
qed

lemma reg_groups:
  assumes "re_match reg line = Some gs"
  shows "\<exists>num title d. gs = [num, title, d] \<and> page_text line d"
proof -
  from first_of_run [OF assms] obtain pos s where
    "(pos, s, gs) \<in> set (run reg (0, line, []))" by blast
  then obtain st1 st2 st3 st4 where
    b: "st1 \<in> set (run Bol (0, line, []))" and
    n: "st2 \<in> set (run (Group (Seq (Opt (Seq (Cls is_upper) (Cls (\<lambda>c. c = CHR ''.''))))
                              (Star is_digit_or_dot))) st1)" and
    w: "st3 \<in> set (run (Cls is_space) st2)" and
    t: "st4 \<in> set (run (Group (Star not_newline)) st3)" and
    e: "(pos, s, gs) \<in> set (run (Seq (Cls is_space) (Seq (Group (Plus is_digit)) Eol)) st4)"
    unfolding reg_def in_run_Seq by blast
  from b have st1: "st1 = (0, line, [])" by (simp add: run.simps)
  obtain p2 s2 g2 where c2: "st2 = (p2, s2, g2)" by (cases st2)
  from n have "(p2, s2, g2) \<in>
      set (run (Group (Seq (Opt (Seq (Cls is_upper) (Cls (\<lambda>c. c = CHR ''.''))))
                              (Star is_digit_or_dot))) (0, line, []))"
    unfolding st1 c2 .
  from num_group [OF this] obtain i where st2: "st2 = (i, drop i line, [take i line])"
    unfolding c2 by auto
  obtain p3 s3 g3 where c3: "st3 = (p3, s3, g3)" by (cases st3)
  from w have "(p3, s3, g3) \<in> set (run (Cls is_space) (i, drop i line, [take i line]))"
    unfolding st2 c3 .
  then obtain c where "drop i line = c # s3" "p3 = Suc i" "g3 = [take i line]"
    unfolding in_run_Cls by blast
  then have st3: "st3 = (Suc i, drop (Suc i) line, [take i line])"
    unfolding c3 by (metis drop_Suc list.sel(3) tl_drop)
  obtain p4 s4 g4 where c4: "st4 = (p4, s4, g4)" by (cases st4)
  from t have "(p4, s4, g4) \<in>
      set (run (Group (Star not_newline)) (Suc i, drop (Suc i) line, [take i line]))"
    unfolding st3 c4 .
  from star_group [OF this] obtain j where
    st4: "st4 = (Suc i + j, drop j (drop (Suc i) line), [take i line, take j (drop (Suc i) line)])"
    unfolding c4 by auto
  from tail_match [OF e [unfolded st4]] obtain c d where
    d: "drop j (drop (Suc i) line) = c # d @ s" "d \<noteq> []" "list_all is_digit d"
      "s = [] \<or> s = [CHR 0x0A]" "gs = [take i line, take j (drop (Suc i) line), d]"
    by auto
  have "suffix (drop j (drop (Suc i) line)) line"
    by (simp add: suffix_drop)
  then have "page_text line d"
    using d(1,2,3,4) by (rule page_text_tail)
  with d(5) show ?thesis by blast
qed

section \<open>Properties of the tokenizer\<close>

lemma tokenize_line_primary:
  assumes "re_match reg line = Some gs"
  shows "\<exists>num title d. gs = [num, title, d] \<and> page_text line d \<and>
           tokenize_line st line = (\<lparr>prev_num = num, cnt = 1\<rparr>, Yield (num, title, PStr d))"
proof -
  from reg_groups [OF assms] obtain num title d where
    g: "gs = [num, title, d]" "page_text line d" by blast
  with assms have "tokenize_line st line = (\<lparr>prev_num = num, cnt = 1\<rparr>, Yield (num, title, PStr d))"
    by (simp add: tokenize_line_def)
  with g show ?thesis by blast
qed

lemma tokenize_line_fallback:
  assumes "re_match reg line = None" and "re_match alt line = Some gs"
  shows "\<exists>title d. gs = [title, d] \<and> page_text line d \<and>
           tokenize_line st line =
             (st\<lparr>cnt := cnt st + 1\<rparr>,
              Yield (prev_num st @ ''.'' @ str_int (cnt st), title, PStr d))"
proof -
  from alt_groups [OF assms(2)] obtain title d where
    g: "gs = [title, d]" "page_text line d" by blast
  with assms have "tokenize_line st line =
             (st\<lparr>cnt := cnt st + 1\<rparr>,
              Yield (prev_num st @ ''.'' @ str_int (cnt st), title, PStr d))"
    by (simp add: tokenize_line_def)
  with g show ?thesis by blast
qed

lemma tokenize_line_skip:
  "re_match reg line = None \<Longrightarrow> re_match alt line = None \<Longrightarrow>
   tokenize_line st line = (st, Print (''Skipping toc line: '' @ line))"
  by (simp add: tokenize_line_def)

lemma primary_ok_iff: "primary_ok line \<longleftrightarrow> re_match reg line \<noteq> None"
proof (cases "re_match reg line")
  case None
  then show ?thesis by (simp add: primary_ok_def)
next
  case (Some gs)
  from reg_groups [OF this] Some show ?thesis
    by (auto simp: primary_ok_def)
qed

lemma fallback_ok_iff:
  "fallback_ok line \<longleftrightarrow> re_match reg line = None \<and> re_match alt line \<noteq> None"
proof (cases "re_match alt line")
  case None
  then show ?thesis by (simp add: fallback_ok_def)
next
  case (Some gs)
  from alt_groups [OF this] Some show ?thesis
    by (auto simp: fallback_ok_def primary_ok_iff)
qed

lemma tokenize_lines_length: "length (tokenize_lines st lines) = length lines"
  by (induction lines arbitrary: st) (auto split: prod.splits)

lemma tokenize_lines_nth:
  "i < length lines \<Longrightarrow>
   tokenize_lines st lines ! i = snd (tokenize_line (tokenize_state st (take i lines)) (lines ! i))"
proof (induction lines arbitrary: st i)
  case Nil
  then show ?case by simp
next
  case (Cons l lines)
  show ?case
  proof (cases i)
    case 0
    then show ?thesis by (simp split: prod.splits)
  next
    case (Suc k)
    with Cons.prems have "k < length lines" by simp
    from Cons.IH [OF this] Suc show ?thesis
      by (simp split: prod.splits)
  qed
qed

lemma tokenize_state_snoc:
  "tokenize_state st (lines @ [l]) = fst (tokenize_line (tokenize_state st lines) l)"
  by (induction lines arbitrary: st) simp_all

lemma previous_chapter_number_snoc:
  "previous_chapter_number (before @ [l]) =
     (case re_match reg l of
        Some gs \<Rightarrow> hd gs
      | None \<Rightarrow> previous_chapter_number before)"
proof (cases "re_match reg l")
  case None
  then show ?thesis
    by (simp add: previous_chapter_number_def primary_ok_iff)
next
  case (Some gs)
  from reg_groups [OF this] Some show ?thesis
    by (auto simp: previous_chapter_number_def primary_ok_iff)
qed

lemma running_subcounter_snoc:
  "running_subcounter (before @ [l]) =
     (if re_match reg l \<noteq> None then 1
      else if re_match alt l \<noteq> None then running_subcounter before + 1
      else running_subcounter before)"
  by (simp add: running_subcounter_def primary_ok_iff fallback_ok_iff)

lemma tokenize_state_spec:
  "tokenize_state \<lparr>prev_num = [], cnt = 1\<rparr> lines =
     \<lparr>prev_num = previous_chapter_number lines, cnt = running_subcounter lines\<rparr>"
proof (induction lines rule: rev_induct)
  case Nil
  then show ?case
    by (simp add: previous_chapter_number_def running_subcounter_def)
next
  case (snoc l lines)
  let ?st = "\<lparr>prev_num = previous_chapter_number lines, cnt = running_subcounter lines\<rparr>"
  have s: "tokenize_state \<lparr>prev_num = [], cnt = 1\<rparr> (lines @ [l]) = fst (tokenize_line ?st l)"
    by (simp add: tokenize_state_snoc snoc)
  show ?case
  proof (cases "re_match reg l")
    case (Some gs)
    from tokenize_line_primary [OF Some, of ?st] Some show ?thesis
      unfolding s by (auto simp: previous_chapter_number_snoc running_subcounter_snoc)
  next
    case None
    show ?thesis
    proof (cases "re_match alt l")
      case (Some gs)
      from tokenize_line_fallback [OF None Some, of ?st] None Some show ?thesis
        unfolding s by (auto simp: previous_chapter_number_snoc running_subcounter_snoc)
    next
      case n: None
      from tokenize_line_skip [OF None n, of ?st] None n show ?thesis
        unfolding s by (simp add: previous_chapter_number_snoc running_subcounter_snoc)
    qed
  qed
qed

lemma tokenize_events_nth:
  "i < length lines \<Longrightarrow>
   tokenize_events lines ! i =
     snd (tokenize_line
       \<lparr>prev_num = previous_chapter_number (take i lines),
        cnt = running_subcounter (take i lines)\<rparr> (lines ! i))"
  by (simp add: tokenize_events_def tokenize_lines_nth tokenize_state_spec)

text \<open>
  Claim C6. Take a line on which the primary pattern fails. If the fallback pattern
  matches it with groups \<open>(title, page)\<close>, the event of that line is the record whose
  chapter number is the previous chapter number, a dot and the running subcounter in
  decimal. If the fallback pattern fails as well, the event is the printed message: no
  record is yielded. Every line has its event, so the loop goes on to the last line.
  The subcounter is 1 at the start and after a line on which the primary pattern
  succeeds, one more after a fallback match, and unchanged by a skipped line; the
  previous chapter number is empty at the start, the first group of the last primary
  match afterwards.
\<close>

theorem tokenize_fallback_numbering:
  assumes "i < length lines" and "re_match reg (lines ! i) = None"
  shows "(\<forall>title page. re_match alt (lines ! i) = Some [title, page] \<longrightarrow>
            tokenize_events lines ! i =
              Yield (previous_chapter_number (take i lines) @ ''.''
                       @ str_int (running_subcounter (take i lines)), title, PStr page)) \<and>
         (re_match alt (lines ! i) = None \<longrightarrow>
            tokenize_events lines ! i = Print (''Skipping toc line: '' @ lines ! i)) \<and>
         length (tokenize_events lines) = length lines \<and>
         running_subcounter [] = 1 \<and>
         (\<forall>before l. running_subcounter (before @ [l]) =
            (if re_match reg l \<noteq> None then 1
             else if re_match alt l \<noteq> None then running_subcounter before + 1
             else running_subcounter before)) \<and>
         previous_chapter_number [] = [] \<and>
         (\<forall>before l num title page. re_match reg l = Some [num, title, page] \<longrightarrow>
            previous_chapter_number (before @ [l]) = num) \<and>
         (\<forall>before l. re_match reg l = None \<longrightarrow>
            previous_chapter_number (before @ [l]) = previous_chapter_number before)"
proof -
  let ?st = "\<lparr>prev_num = previous_chapter_number (take i lines),
              cnt = running_subcounter (take i lines)\<rparr>"
  have a: "tokenize_events lines ! i =
              Yield (previous_chapter_number (take i lines) @ ''.''
                       @ str_int (running_subcounter (take i lines)), title, PStr page)"
    if "re_match alt (lines ! i) = Some [title, page]" for title page
    using tokenize_line_fallback [OF assms(2) that, of ?st] assms(1)
    by (simp add: tokenize_events_nth)
  have b: "tokenize_events lines ! i = Print (''Skipping toc line: '' @ lines ! i)"
    if "re_match alt (lines ! i) = None"
    using tokenize_line_skip [OF assms(2) that, of ?st] assms(1)
    by (simp add: tokenize_events_nth)
  have c: "length (tokenize_events lines) = length lines"
    by (simp add: tokenize_events_def tokenize_lines_length)
  have d: "running_subcounter [] = 1" "previous_chapter_number [] = []"
    by (simp_all add: running_subcounter_def previous_chapter_number_def)
  have e: "previous_chapter_number (before @ [l]) = num"
    if "re_match reg l = Some [num, title, page]" for before l num title page
    using that by (simp add: previous_chapter_number_snoc)
  have f: "previous_chapter_number (before @ [l]) = previous_chapter_number before"
    if "re_match reg l = None" for before l
    using that by (simp add: previous_chapter_number_snoc)
  from a b c d e f running_subcounter_snoc
  show ?thesis by blast
qed

theorem tokenize_fallback_numbering_witness:
  "1 < length [''1. Intro 2'' @ [CHR 0x0A], ''Sub a 4'' @ [CHR 0x0A], ''noise'' @ [CHR 0x0A]] \<and>
   re_match reg ([''1. Intro 2'' @ [CHR 0x0A], ''Sub a 4'' @ [CHR 0x0A], ''noise'' @ [CHR 0x0A]] ! 1)
     = None \<and>
   re_match alt ([''1. Intro 2'' @ [CHR 0x0A], ''Sub a 4'' @ [CHR 0x0A], ''noise'' @ [CHR 0x0A]] ! 1)
     = Some [''Sub a'', ''4''] \<and>
   tokenize_events [''1. Intro 2'' @ [CHR 0x0A], ''Sub a 4'' @ [CHR 0x0A], ''noise'' @ [CHR 0x0A]] ! 1
     = Yield (''1..1'', ''Sub a'', PStr ''4'') \<and>
   2 < length [''1. Intro 2'' @ [CHR 0x0A], ''Sub a 4'' @ [CHR 0x0A], ''noise'' @ [CHR 0x0A]] \<and>
   re_match reg ([''1. Intro 2'' @ [CHR 0x0A], ''Sub a 4'' @ [CHR 0x0A], ''noise'' @ [CHR 0x0A]] ! 2)
     = None \<and>
   re_match alt ([''1. Intro 2'' @ [CHR 0x0A], ''Sub a 4'' @ [CHR 0x0A], ''noise'' @ [CHR 0x0A]] ! 2)
     = None \<and>
   tokenize_events [''1. Intro 2'' @ [CHR 0x0A], ''Sub a 4'' @ [CHR 0x0A], ''noise'' @ [CHR 0x0A]] ! 2
     = Print (''Skipping toc line: noise'' @ [CHR 0x0A])"
proof -
  let ?L = "[''1. Intro 2'' @ [CHR 0x0A], ''Sub a 4'' @ [CHR 0x0A], ''noise'' @ [CHR 0x0A]]"
  have h1: "1 < length ?L" by simp
  have h2: "re_match reg (?L ! 1) = None" by code_simp
  have h3: "re_match alt (?L ! 1) = Some [''Sub a'', ''4'']" by code_simp
  have p: "previous_chapter_number (take 1 ?L) = ''1.''" by code_simp
  have r: "running_subcounter (take 1 ?L) = 1" by code_simp
  have s: "str_int 1 = ''1''" by code_simp
  from tokenize_fallback_numbering [OF h1 h2] h3 have
    "tokenize_events ?L ! 1 =
       Yield (previous_chapter_number (take 1 ?L) @ ''.'' @ str_int (running_subcounter (take 1 ?L)),
              ''Sub a'', PStr ''4'')"
    by blast
  then have a: "tokenize_events ?L ! 1 = Yield (''1..1'', ''Sub a'', PStr ''4'')"
    unfolding p r s by simp
  have k1: "2 < length ?L" by simp
  have k2: "re_match reg (?L ! 2) = None" by code_simp
  have k3: "re_match alt (?L ! 2) = None" by code_simp
  from tokenize_fallback_numbering [OF k1 k2] k3 have
    "tokenize_events ?L ! 2 = Print (''Skipping toc line: '' @ ?L ! 2)"
    by blast
  then have b: "tokenize_events ?L ! 2 = Print (''Skipping toc line: noise'' @ [CHR 0x0A])"
    by simp
  from h1 h2 h3 a k1 k2 k3 b show ?thesis by blast
qed

lemma tokenize_line_yield:
  assumes "tokenize_line st line = (st', Yield (num, title, page))"
  shows "\<exists>d. page = PStr d \<and> page_text line d"
proof (cases "re_match reg line")
  case (Some gs)
  from tokenize_line_primary [OF Some, of st] assms show ?thesis by auto
next
  case None
  show ?thesis
  proof (cases "re_match alt line")
    case (Some gs)
    from tokenize_line_fallback [OF None Some, of st] assms show ?thesis by auto
  next
    case n: None
    from tokenize_line_skip [OF None n, of st] assms show ?thesis by simp
  qed
qed

lemma tokenize_events_yield:
  assumes "i < length lines" and "tokenize_events lines ! i = Yield (num, title, page)"
  shows "\<exists>d. page = PStr d \<and> page_text (lines ! i) d"
proof -
  let ?st = "\<lparr>prev_num = previous_chapter_number (take i lines),
              cnt = running_subcounter (take i lines)\<rparr>"
  from assms have "snd (tokenize_line ?st (lines ! i)) = Yield (num, title, page)"
    by (simp add: tokenize_events_nth)
  then have "tokenize_line ?st (lines ! i) =
      (fst (tokenize_line ?st (lines ! i)), Yield (num, title, page))"
    by (metis prod.collapse)
  then show ?thesis by (rule tokenize_line_yield)
qed

lemma in_yielded: "r \<in> set (yielded e) \<longleftrightarrow> e = Yield r"
  by (cases e) auto

lemma set_yielded: "set (concat (map yielded evs)) = {r. Yield r \<in> set evs}"
  by (auto simp: in_yielded)

lemma tokenize_record_page:
  assumes "r \<in> set (tokenize lines)"
  shows "\<exists>d. page_of r = PStr d \<and> d \<noteq> [] \<and> list_all is_digit d"
proof -
  from assms have "Yield r \<in> set (tokenize_events lines)"
    unfolding tokenize_def set_yielded by simp
  then obtain i where i: "i < length (tokenize_events lines)" "tokenize_events lines ! i = Yield r"
    by (auto simp: in_set_conv_nth)
  then have l: "i < length lines"
    by (simp add: tokenize_events_def tokenize_lines_length)
  obtain num title page where r: "r = (num, title, page)" by (cases r)
  from tokenize_events_yield [OF l i(2) [unfolded r]] show ?thesis
    by (auto simp: r page_of_def page_text_def)
qed

section \<open>Properties of the tree builder\<close>

lemma preorder_simps [simp]:
  "preorder [] = []"
  "preorder (Node d ch # t) = Node d ch # preorder ch @ preorder t"
  by (simp_all add: preorder_def)

lemma preorder_append: "preorder (s @ t) = preorder s @ preorder t"
  by (simp add: preorder_def)

lemma flatten_simps [simp]:
  "flatten [] = []"
  "flatten (Node d ch # t) = d # flatten ch @ flatten t"
  by (simp_all add: flatten_def)

lemma tree_ize_mset:
  "tree_ize fc recs = Inr t \<Longrightarrow> mset (flatten t) = mset recs"
proof (induction fc recs arbitrary: t rule: tree_ize.induct)
  case (1 fc)
  then show ?case by simp
next
  case (2 fc parent records)
  from "2.prems" obtain records' sub rest where
    r: "remove_each (fc parent records) records = Inr records'" and
    s: "tree_ize get_matching_prfx (fc parent records) = Inr sub" and
    u: "tree_ize fc records' = Inr rest" and
    t: "t = Node parent sub # rest"
    by (auto split: sum.splits)
  have "mset (flatten sub) = mset (fc parent records)"
    using "2.IH"(1) [OF r s] .
  moreover have "mset (flatten rest) = mset records'"
    using "2.IH"(2) [OF r s u] .
  moreover have "mset records = mset (fc parent records) + mset records'"
    using r by (rule remove_each_mset)
  ultimately show ?case by (simp add: t)
qed

lemma list_remove_notin:
  "x \<notin> set ys \<Longrightarrow> list_remove x (ys @ x # zs) = Inr (ys @ zs)"
  by (induction ys) auto

lemma remove_each_filter:
  "\<forall>y\<in>set ys. \<not> P y \<Longrightarrow>
   remove_each (filter P xs) (ys @ xs) = Inr (ys @ filter (\<lambda>x. \<not> P x) xs)"
proof (induction xs arbitrary: ys)
  case Nil
  then show ?case by simp
next
  case (Cons x xs)
  show ?case
  proof (cases "P x")
    case True
    with Cons.prems have "x \<notin> set ys" by auto
    then have "list_remove x (ys @ x # xs) = Inr (ys @ xs)"
      by (rule list_remove_notin)
    with True Cons.IH [OF Cons.prems] show ?thesis by simp
  next
    case False
    with Cons.prems have "\<forall>y\<in>set (ys @ [x]). \<not> P y" by auto
    from Cons.IH [OF this] False show ?thesis by simp
  qed
qed

lemma remove_each_matching:
  "remove_each (get_matching_prfx parent records) records =
     Inr (filter (\<lambda>r. \<not> startswith (chapter_number r) (chapter_number parent)) records)"
proof -
  obtain num title page where p: "parent = (num, title, page)" by (cases parent) auto
  have e: "(\<lambda>(n, t, p). startswith n num) = (\<lambda>r. startswith (chapter_number r) num)"
    by (auto simp: chapter_number_def fun_eq_iff)
  show ?thesis
    using remove_each_filter [of "[]" "\<lambda>r. startswith (chapter_number r) num" records]
    by (simp add: get_matching_prfx_def p e chapter_number_def)
qed

lemma tree_ize_default_total:
  "\<exists>t. tree_ize get_matching_prfx recs = Inr t"
proof (induction "length recs" arbitrary: recs rule: less_induct)
  case less
  show ?case
  proof (cases recs)
    case Nil
    then show ?thesis by simp
  next
    case (Cons parent records)
    let ?ch = "get_matching_prfx parent records"
    let ?rest = "filter (\<lambda>r. \<not> startswith (chapter_number r) (chapter_number parent)) records"
    have "length ?ch < length recs"
      by (cases parent) (simp add: Cons get_matching_prfx_def less_Suc_eq_le)
    then obtain sub where s: "tree_ize get_matching_prfx ?ch = Inr sub"
      using less by blast
    have "length ?rest < length recs"
      by (simp add: Cons less_Suc_eq_le)
    then obtain rest where u: "tree_ize get_matching_prfx ?rest = Inr rest"
      using less by blast
    show ?thesis
      by (simp add: Cons remove_each_matching s u)
  qed
qed

text \<open>
  Claim C1. For every list of records, \<open>tree_ize\<close> with the default policy
  \<open>get_matching_prfx\<close> returns a tree, and flattening that tree by depth-first pre-order
  traversal gives the records of the input as a multiset: none is lost, none is duplicated.
\<close>

theorem tree_ize_preserves_records:
  "\<exists>t. tree_ize get_matching_prfx recs = Inr t \<and> mset (flatten t) = mset recs"
  using tree_ize_default_total [of recs] tree_ize_mset by blast

lemma get_matching_prfx_filter:
  "get_matching_prfx parent records =
     filter (\<lambda>r. startswith (chapter_number r) (chapter_number parent)) records"
  by (cases parent) (auto simp: get_matching_prfx_def chapter_number_def intro: filter_cong)

lemma tree_ize_default_Cons:
  assumes "tree_ize get_matching_prfx (parent # records) = Inr t"
  obtains sub rest where
    "t = Node parent sub # rest"
    "tree_ize get_matching_prfx (get_matching_prfx parent records) = Inr sub"
    "tree_ize get_matching_prfx
       (filter (\<lambda>r. \<not> startswith (chapter_number r) (chapter_number parent)) records) = Inr rest"
  using assms by (auto simp: remove_each_matching split: sum.splits)

lemma default_induct [consumes 0, case_names Nil Cons]:
  assumes "P []"
    and "\<And>parent records.
           P (get_matching_prfx parent records) \<Longrightarrow>
           P (filter (\<lambda>r. \<not> startswith (chapter_number r) (chapter_number parent)) records) \<Longrightarrow>
           P (parent # records)"
  shows "P recs"
proof (induction "length recs" arbitrary: recs rule: less_induct)
  case less
  show ?case
  proof (cases recs)
    case Nil
    with assms(1) show ?thesis by simp
  next
    case (Cons parent records)
    have "P (get_matching_prfx parent records)"
      by (rule less) (simp add: Cons get_matching_prfx_filter less_Suc_eq_le)
    moreover have "P (filter (\<lambda>r. \<not> startswith (chapter_number r) (chapter_number parent)) records)"
      by (rule less) (simp add: Cons less_Suc_eq_le)
    ultimately show ?thesis
      unfolding Cons by (rule assms(2))
  qed
qed

lemma tree_ize_roots_subseq:
  "tree_ize get_matching_prfx recs = Inr t \<Longrightarrow> subseq (map node_data t) recs"
proof (induction recs arbitrary: t rule: default_induct)
  case Nil
  then show ?case by simp
next
  case (Cons parent records)
  from Cons.prems obtain sub rest where
    t: "t = Node parent sub # rest" and
    r: "tree_ize get_matching_prfx
          (filter (\<lambda>r. \<not> startswith (chapter_number r) (chapter_number parent)) records) = Inr rest"
    by (rule tree_ize_default_Cons)
  have "subseq (map node_data rest)
          (filter (\<lambda>r. \<not> startswith (chapter_number r) (chapter_number parent)) records)"
    using r by (rule Cons.IH(2))
  then have "subseq (map node_data rest) records"
    using subseq_filter_left subseq_order.trans by blast
  then show ?case by (simp add: t)
qed

lemma tree_ize_children_subseq:
  "tree_ize get_matching_prfx recs = Inr t \<Longrightarrow> n \<in> set (preorder t) \<Longrightarrow>
   subseq (map node_data (node_children n)) recs"
proof (induction recs arbitrary: t rule: default_induct)
  case Nil
  then show ?case by simp
next
  case (Cons parent records)
  let ?ch = "get_matching_prfx parent records"
  let ?rs = "filter (\<lambda>r. \<not> startswith (chapter_number r) (chapter_number parent)) records"
  from Cons.prems(1) obtain sub rest where
    t: "t = Node parent sub # rest" and
    s: "tree_ize get_matching_prfx ?ch = Inr sub" and
    r: "tree_ize get_matching_prfx ?rs = Inr rest"
    by (rule tree_ize_default_Cons)
  have ch: "subseq ?ch records" and rs: "subseq ?rs records"
    by (simp_all add: get_matching_prfx_filter)
  from Cons.prems(2) consider "n = Node parent sub" | "n \<in> set (preorder sub)"
    | "n \<in> set (preorder rest)"
    by (auto simp: t)
  then have "subseq (map node_data (node_children n)) records"
  proof cases
    case 1
    have "subseq (map node_data sub) ?ch" using s by (rule tree_ize_roots_subseq)
    with ch 1 show ?thesis using subseq_order.trans by auto
  next
    case 2
    with s have "subseq (map node_data (node_children n)) ?ch" by (rule Cons.IH(1))
    with ch show ?thesis using subseq_order.trans by blast
  next
    case 3
    with r have "subseq (map node_data (node_children n)) ?rs" by (rule Cons.IH(2))
    with rs show ?thesis using subseq_order.trans by blast
  qed
  then show ?case by (rule list_emb_Cons)
qed

lemma tree_ize_roots_set:
  assumes "tree_ize get_matching_prfx recs = Inr t" and "x \<in> set t"
  shows "node_data x \<in> set recs"
proof -
  have "subseq (map node_data t) recs"
    using assms(1) by (rule tree_ize_roots_subseq)
  moreover have "node_data x \<in> set (map node_data t)"
    using assms(2) by simp
  ultimately obtain y where "y \<in> set recs" "node_data x = y"
    by (rule list_emb_set)
  then show ?thesis by simp
qed

lemma tree_ize_child_startswith:
  "tree_ize get_matching_prfx recs = Inr t \<Longrightarrow> n \<in> set (preorder t) \<Longrightarrow>
   c \<in> set (node_children n) \<Longrightarrow>
   startswith (chapter_number (node_data c)) (chapter_number (node_data n))"
proof (induction recs arbitrary: t rule: default_induct)
  case Nil
  then show ?case by simp
next
  case (Cons parent records)
  let ?ch = "get_matching_prfx parent records"
  let ?rs = "filter (\<lambda>r. \<not> startswith (chapter_number r) (chapter_number parent)) records"
  from Cons.prems(1) obtain sub rest where
    t: "t = Node parent sub # rest" and
    s: "tree_ize get_matching_prfx ?ch = Inr sub" and
    r: "tree_ize get_matching_prfx ?rs = Inr rest"
    by (rule tree_ize_default_Cons)
  from Cons.prems(2) consider "n = Node parent sub" | "n \<in> set (preorder sub)"
    | "n \<in> set (preorder rest)"
    by (auto simp: t)
  then show ?case
  proof cases
    case 1
    with Cons.prems(3) have "c \<in> set sub" by simp
    then have "node_data c \<in> set ?ch" by (rule tree_ize_roots_set [OF s])
    with 1 show ?thesis by (simp add: get_matching_prfx_filter)
  next
    case 2
    from s 2 Cons.prems(3) show ?thesis by (rule Cons.IH(1))
  next
    case 3
    from r 3 Cons.prems(3) show ?thesis by (rule Cons.IH(2))
  qed
qed

lemma tree_ize_child_num_neq:
  "tree_ize get_matching_prfx recs = Inr t \<Longrightarrow> distinct (map chapter_number recs) \<Longrightarrow>
   n \<in> set (preorder t) \<Longrightarrow> c \<in> set (node_children n) \<Longrightarrow>
   chapter_number (node_data c) \<noteq> chapter_number (node_data n)"
proof (induction recs arbitrary: t rule: default_induct)
  case Nil
  then show ?case by simp
next
  case (Cons parent records)
  let ?ch = "get_matching_prfx parent records"
  let ?rs = "filter (\<lambda>r. \<not> startswith (chapter_number r) (chapter_number parent)) records"
  from Cons.prems(1) obtain sub rest where
    t: "t = Node parent sub # rest" and
    s: "tree_ize get_matching_prfx ?ch = Inr sub" and
    r: "tree_ize get_matching_prfx ?rs = Inr rest"
    by (rule tree_ize_default_Cons)
  from Cons.prems(2) have d: "distinct (map chapter_number records)"
    and p: "chapter_number parent \<notin> chapter_number ` set records" by simp_all
  have dch: "distinct (map chapter_number ?ch)" and drs: "distinct (map chapter_number ?rs)"
    using d by (simp_all add: get_matching_prfx_filter distinct_map_filter)
  from Cons.prems(3) consider "n = Node parent sub" | "n \<in> set (preorder sub)"
    | "n \<in> set (preorder rest)"
    by (auto simp: t)
  then show ?case
  proof cases
    case 1
    with Cons.prems(4) have "c \<in> set sub" by simp
    then have "node_data c \<in> set ?ch" by (rule tree_ize_roots_set [OF s])
    then have "node_data c \<in> set records" by (simp add: get_matching_prfx_filter)
    then have "chapter_number (node_data c) \<in> chapter_number ` set records"
      by (rule imageI)
    with p have "chapter_number (node_data c) \<noteq> chapter_number parent"
      by metis
    with 1 show ?thesis by simp
  next
    case 2
    with s dch Cons.prems(4) show ?thesis by (auto dest: Cons.IH(1))
  next
    case 3
    with r drs Cons.prems(4) show ?thesis by (auto dest: Cons.IH(2))
  qed
qed

lemma startswith_prefix: "startswith n num = prefix num n"
  by (auto simp: startswith_def prefix_def) (metis append_take_drop_id)

text \<open>
  Claim C7, as amended. In the tree that \<open>tree_ize\<close> builds with the default policy,
  the chapter number of every child starts with the chapter number of its parent; the
  prefix is a proper one when the chapter numbers of the input are pairwise distinct.
  The children of every node, and the top-level nodes, are in the order of the input:
  their records are a subsequence of it.
\<close>

theorem tree_ize_child_prefix_order:
  assumes "tree_ize get_matching_prfx recs = Inr t"
    and "n \<in> set (preorder t)"
    and "c \<in> set (node_children n)"
  shows "prefix (chapter_number (node_data n)) (chapter_number (node_data c)) \<and>
         (distinct (map chapter_number recs) \<longrightarrow>
            strict_prefix (chapter_number (node_data n)) (chapter_number (node_data c))) \<and>
         subseq (map node_data (node_children n)) recs \<and>
         subseq (map node_data t) recs"
proof -
  have a: "prefix (chapter_number (node_data n)) (chapter_number (node_data c))"
    using tree_ize_child_startswith [OF assms] by (simp add: startswith_prefix)
  have b: "strict_prefix (chapter_number (node_data n)) (chapter_number (node_data c))"
    if "distinct (map chapter_number recs)"
    using a tree_ize_child_num_neq [OF assms(1) that assms(2,3)]
    by (auto simp: strict_prefix_def)
  from a b tree_ize_children_subseq [OF assms(1,2)] tree_ize_roots_subseq [OF assms(1)]
  show ?thesis by blast
qed

theorem tree_ize_child_prefix_order_witness:
  "tree_ize get_matching_prfx
     [(''1.'', ''Intro'', PInt 2), (''1.1'', ''Background'', PInt 3), (''2.'', ''Results'', PInt 5)]
   = Inr [Node (''1.'', ''Intro'', PInt 2) [Node (''1.1'', ''Background'', PInt 3) []],
          Node (''2.'', ''Results'', PInt 5) []] \<and>
   Node (''1.'', ''Intro'', PInt 2) [Node (''1.1'', ''Background'', PInt 3) []]
     \<in> set (preorder [Node (''1.'', ''Intro'', PInt 2) [Node (''1.1'', ''Background'', PInt 3) []],
          Node (''2.'', ''Results'', PInt 5) []]) \<and>
   distinct (map chapter_number
     [(''1.'', ''Intro'', PInt 2), (''1.1'', ''Background'', PInt 3), (''2.'', ''Results'', PInt 5)]) \<and>
   strict_prefix ''1.'' ''1.1'' \<and>
   subseq [(''1.1'', ''Background'', PInt 3)]
     [(''1.'', ''Intro'', PInt 2), (''1.1'', ''Background'', PInt 3), (''2.'', ''Results'', PInt 5)]"
proof -
  let ?recs = "[(''1.'', ''Intro'', PInt 2), (''1.1'', ''Background'', PInt 3),
                (''2.'', ''Results'', PInt 5)]"
  let ?c = "Node (''1.1'', ''Background'', PInt 3) []"
  let ?n = "Node (''1.'', ''Intro'', PInt 2) [?c]"
  let ?t = "[?n, Node (''2.'', ''Results'', PInt 5) []]"
  have h1: "tree_ize get_matching_prfx ?recs = Inr ?t"
    by (simp add: get_matching_prfx_def startswith_def)
  have h2: "?n \<in> set (preorder ?t)" by simp
  have h3: "?c \<in> set (node_children ?n)" by simp
  have h4: "distinct (map chapter_number ?recs)" by (simp add: chapter_number_def)
  from tree_ize_child_prefix_order [OF h1 h2 h3] h1 h2 h4
  show ?thesis by (simp add: chapter_number_def)
qed

text \<open>
  Two records with the same chapter number: the second becomes a child of the first,
  and its chapter number is not a proper extension of its parent's.
\<close>

theorem tree_ize_child_prefix_counterexample:
  "tree_ize get_matching_prfx [(''1'', ''a'', PInt 1), (''1'', ''b'', PInt 2)]
     = Inr [Node (''1'', ''a'', PInt 1) [Node (''1'', ''b'', PInt 2) []]] \<and>
   \<not> strict_prefix (chapter_number (''1'', ''a'', PInt 1)) (chapter_number (''1'', ''b'', PInt 2))"
  by (simp add: get_matching_prfx_def startswith_def chapter_number_def)

lemma list_remove_member:
  "x \<in> set ys \<Longrightarrow> list_remove x ys = Inr (remove1 x ys)"
  by (induction ys) auto


text \<open>
  The loop over the object that \<open>find_children\<close> returned: it never raises on the pool
  itself or on a lazy iterator over it, and it never makes the pool longer.
\<close>

lemma list_remove_length:
  "list_remove x ys = Inr r \<Longrightarrow> length ys = Suc (length r)"
  by (drule list_remove_mset) (metis size_mset size_add_mset)

lemma list_remove_nth:
  "i < length records \<Longrightarrow> \<exists>records'. list_remove (records ! i) records = Inr records'"
  by (simp add: list_remove_member)

lemma remove_while_iterating_shrinks:
  "\<exists>r. remove_while_iterating P i records = Inr r \<and> length r \<le> length records"
proof (induction P i records rule: remove_while_iterating.induct)
  case (1 P i records)
  show ?case
  proof (cases "i < length records")
    case False
    then show ?thesis
      by (subst remove_while_iterating.simps) simp
  next
    case True
    show ?thesis
    proof (cases "P (records ! i)")
      case False
      from "1.IH"(2) [OF True False] True False show ?thesis
        by (subst remove_while_iterating.simps) simp
    next
      case p: True
      from list_remove_nth [OF True] obtain records' where
        r: "list_remove (records ! i) records = Inr records'" by blast
      from "1.IH"(1) [OF True p r] obtain r' where
        "remove_while_iterating P (Suc i) records' = Inr r'" "length r' \<le> length records'"
        by blast
      with True p r list_remove_length [OF r] show ?thesis
        by (subst remove_while_iterating.simps) simp
    qed
  qed
qed

lemma remove_children_shrinks:
  assumes "remove_children obj records = Inr records'"
  shows "length records' \<le> length records \<and>
         length (children_list obj records') \<le> length records"
proof (cases obj)
  case (ListObj cs)
  with assms have "length records = length cs + length records'"
    by (simp add: remove_each_length)
  with ListObj show ?thesis by simp
next
  case PoolObj
  with assms remove_while_iterating_shrinks [of "\<lambda>r. True" 0 records] show ?thesis
    by simp
next
  case (LazyObj P)
  with assms remove_while_iterating_shrinks [of P 0 records] show ?thesis
    by simp
qed


text \<open>
  With a bound above the number of records \<open>tree_ize_obj\<close> returns, whatever
  \<open>find_children\<close> is, and a larger bound does not change what it returns.
\<close>

lemma tree_ize_obj_returns:
  "length recs < fuel \<Longrightarrow> \<exists>r. tree_ize_obj fuel find_children recs = Some r"
proof (induction fuel arbitrary: find_children recs)
  case 0
  then show ?case by simp
next
  case (Suc fuel)
  show ?case
  proof (cases recs)
    case Nil
    then show ?thesis by simp
  next
    case (Cons parent records)
    show ?thesis
    proof (cases "remove_children (find_children parent records) records")
      case (Inl e)
      with Cons show ?thesis by simp
    next
      case (Inr records')
      from remove_children_shrinks [OF Inr] Suc.prems Cons have
        l: "length records' < fuel"
           "length (children_list (find_children parent records) records') < fuel"
        by simp_all
      from Suc.IH [OF l(2)] obtain r1 where
        r1: "tree_ize_obj fuel default_children
               (children_list (find_children parent records) records') = Some r1"
        by blast
      from Suc.IH [OF l(1)] obtain r2 where
        r2: "tree_ize_obj fuel find_children records' = Some r2"
        by blast
      from Cons Inr r1 r2 show ?thesis
        by (simp split: sum.splits)
    qed
  qed
qed








text \<open>
  A lazy filter loses the record that slides under the iterator when its neighbour is
  removed, and leaves no children for the recursive call; the default policy groups as
  expected; a sequence that holds a record more often than the pool makes \<open>remove\<close>
  raise.
\<close>

lemma tree_ize_obj_examples:
  "tree_ize_obj 5
     (\<lambda>parent pool. LazyObj (\<lambda>r. startswith (chapter_number r) (chapter_number parent)))
     [(''1.'', ''a'', PInt 1), (''1.1'', ''b'', PInt 2), (''1.2'', ''c'', PInt 3),
      (''2.'', ''d'', PInt 4)]
   = Some (Inr [Node (''1.'', ''a'', PInt 1) [], Node (''1.2'', ''c'', PInt 3) [],
                Node (''2.'', ''d'', PInt 4) []])"
  "tree_ize_obj 5 default_children
     [(''1.'', ''a'', PInt 1), (''1.1'', ''b'', PInt 2), (''1.2'', ''c'', PInt 3),
      (''2.'', ''d'', PInt 4)]
   = Some (Inr [Node (''1.'', ''a'', PInt 1)
                  [Node (''1.1'', ''b'', PInt 2) [], Node (''1.2'', ''c'', PInt 3) []],
                Node (''2.'', ''d'', PInt 4) []])"
  "tree_ize_obj 3 (\<lambda>parent pool. ListObj (pool @ pool))
     [(''1'', ''a'', PInt 1), (''2'', ''b'', PInt 2)]
   = Some (Inl ValueError)"
  by code_simp+

section \<open>Decimal text of integers\<close>

text \<open>\<open>int\<close> reads back what \<open>str\<close> prints for a non-negative integer.\<close>

lemma digit_char_props:
  assumes "d < 10"
  shows "is_digit (digit_char d)" and "digit_val (digit_char d) = d"
proof -
  from assms have "d = 0 \<or> d = 1 \<or> d = 2 \<or> d = 3 \<or> d = 4 \<or> d = 5 \<or> d = 6 \<or> d = 7
      \<or> d = 8 \<or> d = 9"
    by arith
  then show "is_digit (digit_char d)" and "digit_val (digit_char d) = d"
    by (auto simp: is_digit_def digit_char_def digit_val_def)
qed

lemma digits_of_nat_digits:
  "digits_of_nat n \<noteq> [] \<and> list_all is_digit (digits_of_nat n)"
proof (induction n rule: digits_of_nat.induct)
  case (1 n)
  show ?case
  proof (cases "n < 10")
    case True
    then show ?thesis
      by (subst (1 2) digits_of_nat.simps) (simp add: digit_char_props)
  next
    case False
    with 1 show ?thesis
      by (subst (1 2) digits_of_nat.simps) (simp add: digit_char_props)
  qed
qed

lemma digits_val_snoc: "digits_val (s @ [c]) = 10 * digits_val s + digit_val c"
  by (simp add: digits_val_def)

lemma digits_val_digits_of_nat: "digits_val (digits_of_nat n) = n"
proof (induction n rule: digits_of_nat.induct)
  case (1 n)
  show ?case
  proof (cases "n < 10")
    case True
    then show ?thesis
      by (subst digits_of_nat.simps) (simp add: digits_val_def digit_char_props)
  next
    case False
    with 1 have "digits_val (digits_of_nat (n div 10)) = n div 10" by simp
    with False show ?thesis
      by (subst digits_of_nat.simps) (simp add: digits_val_snoc digit_char_props)
  qed
qed

lemma is_digit_cases:
  "is_digit c \<Longrightarrow> c \<noteq> CHR ''_'' \<and> c \<noteq> CHR ''-'' \<and> c \<noteq> CHR ''+'' \<and> \<not> is_int_space c"
  by (auto simp: is_digit_def is_int_space_def)

lemma int_body_ok_digits:
  "s \<noteq> [] \<Longrightarrow> list_all is_digit s \<Longrightarrow> int_body_ok s"
  by (induction s rule: int_body_ok.induct) (auto dest: is_digit_cases)

lemma filter_underscore_digits:
  "list_all is_digit s \<Longrightarrow> filter (\<lambda>c. c \<noteq> CHR ''_'') s = s"
  by (induction s) (auto dest: is_digit_cases)

lemma strip_digits:
  assumes "s \<noteq> []" "list_all is_digit s"
  shows "rev (dropWhile is_int_space (rev (dropWhile is_int_space s))) = s"
proof -
  from assms have "\<not> is_int_space (hd s)"
    by (cases s) (auto dest: is_digit_cases)
  with assms(1) have a: "dropWhile is_int_space s = s"
    by (cases s) auto
  from assms have "\<not> is_int_space (last s)"
    by (metis is_digit_cases last_in_set list_all_iff)
  with assms(1) have "dropWhile is_int_space (rev s) = rev s"
    by (cases s rule: rev_cases) auto
  with a show ?thesis by simp
qed

lemma int_of_str_digits:
  assumes "s \<noteq> []" "list_all is_digit s"
  shows "int_of_str s = Inr (int (digits_val s))"
proof -
  from assms have "is_digit (hd s)" by (cases s) auto
  then have "hd s \<noteq> CHR ''-''" "hd s \<noteq> CHR ''+''"
    by (auto dest: is_digit_cases)
  with assms show ?thesis
    by (simp add: int_of_str_def strip_digits int_body_ok_digits filter_underscore_digits Let_def)
qed

lemma int_of_str_str_int: "0 \<le> i \<Longrightarrow> int_of_str (str_int i) = Inr i"
  using digits_of_nat_digits [of "nat i"]
  by (simp add: str_int_def int_of_str_digits digits_val_digits_of_nat)


section \<open>Properties of the page offset normaliser\<close>

lemma apply_page_offset_map:
  assumes "\<forall>r\<in>set records. \<exists>i. py_int (page_of r) = Inr i"
  shows "\<exists>out. apply_page_offset records offset = Inr out \<and>
           list_all2 (\<lambda>r out_r. chapter_number out_r = chapter_number r \<and>
                         title_of out_r = title_of r \<and>
                         (\<exists>i. py_int (page_of r) = Inr i \<and> page_of out_r = PInt (i + offset)))
             records out"
  using assms
proof (induction records)
  case Nil
  then show ?case by simp
next
  case (Cons r records)
  obtain num title page where r: "r = (num, title, page)" by (cases r)
  from Cons.prems obtain i where i: "py_int page = Inr i"
    by (auto simp: r page_of_def)
  from Cons obtain out where out: "apply_page_offset records offset = Inr out"
    "list_all2 (\<lambda>r out_r. chapter_number out_r = chapter_number r \<and>
                         title_of out_r = title_of r \<and>
                         (\<exists>i. py_int (page_of r) = Inr i \<and> page_of out_r = PInt (i + offset)))
             records out"
    by auto
  then show ?case
    by (simp add: r i chapter_number_def title_of_def page_of_def)
qed

lemma apply_page_offset_error:
  "apply_page_offset records offset = Inl e \<Longrightarrow>
   \<exists>r\<in>set records. py_int (page_of r) = Inl e"
proof (induction records)
  case Nil
  then show ?case by simp
next
  case (Cons r records)
  obtain num title page where r: "r = (num, title, page)" by (cases r)
  from Cons show ?case
    by (auto simp: r page_of_def split: sum.splits)
qed

lemma apply_page_offset_pages:
  "apply_page_offset records offset = Inr out \<Longrightarrow> r \<in> set out \<Longrightarrow> \<exists>k. page_of r = PInt k"
proof (induction records arbitrary: out)
  case Nil
  then show ?case by simp
next
  case (Cons x records)
  obtain num title page where x: "x = (num, title, page)" by (cases x)
  from Cons.prems obtain i rest where
    "apply_page_offset records offset = Inr rest" "out = (num, title, PInt (i + offset)) # rest"
    by (auto simp: x split: sum.splits)
  with Cons.IH Cons.prems(2) show ?case
    by (auto simp: page_of_def)
qed

text \<open>
  Claim C8. For records whose page is an integer or a text that \<open>int\<close> accepts, and
  for every integer offset, \<open>apply_page_offset\<close> returns as many records as it was
  given, in the same order: record \<open>k\<close> of the output has the chapter number and title
  of record \<open>k\<close> of the input, and its page is the input's page, as an integer, plus
  the offset.
\<close>

theorem apply_page_offset_shifts:
  assumes "\<forall>r\<in>set records. \<exists>i. py_int (page_of r) = Inr i"
  shows "\<exists>out. apply_page_offset records offset = Inr out \<and> length out = length records \<and>
           (\<forall>k<length records.
              chapter_number (out ! k) = chapter_number (records ! k) \<and>
              title_of (out ! k) = title_of (records ! k) \<and>
              (\<exists>i. py_int (page_of (records ! k)) = Inr i \<and>
                   page_of (out ! k) = PInt (i + offset)))"
proof -
  from apply_page_offset_map [OF assms, of offset] obtain out where
    o: "apply_page_offset records offset = Inr out" and
    l: "list_all2 (\<lambda>r out_r. chapter_number out_r = chapter_number r \<and>
                         title_of out_r = title_of r \<and>
                         (\<exists>i. py_int (page_of r) = Inr i \<and> page_of out_r = PInt (i + offset)))
             records out"
    by blast
  from l have n: "length out = length records"
    by (simp add: list_all2_lengthD)
  have "chapter_number (out ! k) = chapter_number (records ! k) \<and>
              title_of (out ! k) = title_of (records ! k) \<and>
              (\<exists>i. py_int (page_of (records ! k)) = Inr i \<and>
                   page_of (out ! k) = PInt (i + offset))"
    if "k < length records" for k
    using list_all2_nthD [OF l that] .
  with o n show ?thesis by blast
qed

theorem apply_page_offset_shifts_witness:
  "py_int (page_of (''1.'', ''Intro'', PStr ''2'')) = Inr 2 \<and>
   py_int (page_of (''1.1'', ''Background'', PInt 3)) = Inr 3 \<and>
   (\<exists>out. apply_page_offset [(''1.'', ''Intro'', PStr ''2''), (''1.1'', ''Background'', PInt 3)]
             (- 10) = Inr out \<and>
          length out = 2 \<and>
          chapter_number (out ! 0) = ''1.'' \<and> title_of (out ! 0) = ''Intro'' \<and>
          page_of (out ! 0) = PInt (- 8) \<and> page_of (out ! 1) = PInt (- 7))"
proof -
  let ?R = "[(''1.'', ''Intro'', PStr ''2''), (''1.1'', ''Background'', PInt 3)]"
  have i: "int_of_str ''2'' = Inr 2" by code_simp
  have h: "\<forall>r\<in>set ?R. \<exists>i. py_int (page_of r) = Inr i"
    by (simp add: page_of_def i)
  from apply_page_offset_shifts [OF h, of "- 10"] obtain out where
    o: "apply_page_offset ?R (- 10) = Inr out" "length out = length ?R" and
    k: "\<forall>k<length ?R. chapter_number (out ! k) = chapter_number (?R ! k) \<and>
              title_of (out ! k) = title_of (?R ! k) \<and>
              (\<exists>i. py_int (page_of (?R ! k)) = Inr i \<and> page_of (out ! k) = PInt (i + - 10))"
    by blast
  have "(0::nat) < length ?R" and "(1::nat) < length ?R" by simp_all
  with k have
    "chapter_number (out ! 0) = chapter_number (?R ! 0) \<and>
       title_of (out ! 0) = title_of (?R ! 0) \<and>
       (\<exists>i. py_int (page_of (?R ! 0)) = Inr i \<and> page_of (out ! 0) = PInt (i + - 10))"
    "chapter_number (out ! 1) = chapter_number (?R ! 1) \<and>
       title_of (out ! 1) = title_of (?R ! 1) \<and>
       (\<exists>i. py_int (page_of (?R ! 1)) = Inr i \<and> page_of (out ! 1) = PInt (i + - 10))"
    by blast+
  then have "chapter_number (out ! 0) = ''1.'' \<and> title_of (out ! 0) = ''Intro'' \<and>
          page_of (out ! 0) = PInt (- 8) \<and> page_of (out ! 1) = PInt (- 7)"
    by (auto simp: chapter_number_def title_of_def page_of_def i)
  moreover have "py_int (page_of (''1.'', ''Intro'', PStr ''2'')) = Inr 2"
    "py_int (page_of (''1.1'', ''Background'', PInt 3)) = Inr 3"
    by (simp_all add: page_of_def i)
  ultimately show ?thesis using o by auto
qed

lemma apply_page_offset_integers:
  "\<forall>r\<in>set records. \<exists>k. page_of r = PInt k \<Longrightarrow> apply_page_offset records 0 = Inr records"
proof (induction records)
  case Nil
  then show ?case by simp
next
  case (Cons r records)
  obtain num title page where r: "r = (num, title, page)" by (cases r)
  from Cons.prems obtain k where "page = PInt k"
    by (auto simp: r page_of_def)
  with Cons show ?case by (simp add: r)
qed

lemma apply_page_offset_digit_texts:
  "\<forall>r\<in>set records. \<exists>d. page_of r = PStr d \<and> d \<noteq> [] \<and> list_all is_digit d \<Longrightarrow>
   apply_page_offset records offset =
     Inr (map (\<lambda>(num, title, page). (num, title, PInt (int (digits_val (str_page page)) + offset)))
            records)"
proof (induction records)
  case Nil
  then show ?case by simp
next
  case (Cons r records)
  obtain num title page where r: "r = (num, title, page)" by (cases r)
  from Cons.prems obtain d where d: "page = PStr d" "d \<noteq> []" "list_all is_digit d"
    by (auto simp: r page_of_def)
  then have "py_int page = Inr (int (digits_val d))"
    by (simp add: int_of_str_digits)
  with Cons d show ?case by (simp add: r)
qed

lemma apply_page_offset_tokenize:
  "apply_page_offset (tokenize lines) offset =
     Inr (map (\<lambda>(num, title, page). (num, title, PInt (int (digits_val (str_page page)) + offset)))
            (tokenize lines))"
  by (rule apply_page_offset_digit_texts) (simp add: tokenize_record_page)

text \<open>
  Claim C4, as amended. On records whose pages are integers, \<open>apply_page_offset\<close> with
  offset 0 is the identity. On the records that \<open>tokenize\<close> yields it always succeeds,
  keeps the order, the chapter number and the title of every record, and replaces the
  page, a text of digits, by the integer that text denotes.
\<close>

theorem apply_page_offset_zero:
  "((\<forall>r\<in>set records. \<exists>k. page_of r = PInt k) \<longrightarrow> apply_page_offset records 0 = Inr records) \<and>
   apply_page_offset (tokenize lines) 0 =
     Inr (map (\<lambda>(num, title, page). (num, title, PInt (int (digits_val (str_page page)))))
            (tokenize lines))"
  using apply_page_offset_integers [of records] apply_page_offset_tokenize [of lines 0]
  by simp

theorem apply_page_offset_zero_witness:
  "page_of (''1.'', ''Intro'', PInt 2) = PInt 2 \<and>
   apply_page_offset [(''1.'', ''Intro'', PInt 2)] 0 = Inr [(''1.'', ''Intro'', PInt 2)] \<and>
   tokenize [''1. Intro 2'' @ [CHR 0x0A]] = [(''1.'', ''Intro'', PStr ''2'')] \<and>
   apply_page_offset (tokenize [''1. Intro 2'' @ [CHR 0x0A]]) 0 = Inr [(''1.'', ''Intro'', PInt 2)]"
proof -
  have h: "\<forall>r\<in>set [(''1.'', ''Intro'', PInt 2)]. \<exists>k. page_of r = PInt k"
    by (simp add: page_of_def)
  have t: "tokenize [''1. Intro 2'' @ [CHR 0x0A]] = [(''1.'', ''Intro'', PStr ''2'')]"
    by code_simp
  have v: "digits_val ''2'' = 2" by code_simp
  from apply_page_offset_zero [of "[(''1.'', ''Intro'', PInt 2)]" "[''1. Intro 2'' @ [CHR 0x0A]]"] h
  have "apply_page_offset [(''1.'', ''Intro'', PInt 2)] 0 = Inr [(''1.'', ''Intro'', PInt 2)]"
    and "apply_page_offset (tokenize [''1. Intro 2'' @ [CHR 0x0A]]) 0 =
     Inr (map (\<lambda>(num, title, page). (num, title, PInt (int (digits_val (str_page page)))))
            (tokenize [''1. Intro 2'' @ [CHR 0x0A]]))"
    by blast+
  then show ?thesis
    unfolding t by (simp add: v page_of_def)
qed

text \<open>
  The record that \<open>tokenize\<close> yields for a page written \<open>007\<close> is changed by offset 0:
  its page becomes the integer 7, which also prints differently.
\<close>

theorem apply_page_offset_zero_counterexample:
  "tokenize [''1. Intro 007'' @ [CHR 0x0A]] = [(''1.'', ''Intro'', PStr ''007'')] \<and>
   apply_page_offset [(''1.'', ''Intro'', PStr ''007'')] 0 = Inr [(''1.'', ''Intro'', PInt 7)] \<and>
   (''1.'', ''Intro'', PInt 7) \<noteq> (''1.'', ''Intro'', PStr ''007'') \<and>
   str_page (PInt 7) \<noteq> str_page (PStr ''007'')"
proof -
  have "tokenize [''1. Intro 007'' @ [CHR 0x0A]] = [(''1.'', ''Intro'', PStr ''007'')]"
    by code_simp
  moreover have "apply_page_offset [(''1.'', ''Intro'', PStr ''007'')] 0
      = Inr [(''1.'', ''Intro'', PInt 7)]"
    by code_simp
  moreover have "str_page (PInt 7) = ''7''" by code_simp
  ultimately show ?thesis by simp
qed

section \<open>Properties of the bookmark emitter\<close>

lemma pdfmark_toc_Cons:
  "pdfmark_toc (n # tree) = directive n # pdfmark_toc (node_children n) @ pdfmark_toc tree"
proof -
  obtain num title page ch where n: "n = Node (num, title, page) ch"
    by (cases n) (metis prod_cases3)
  show ?thesis by (simp add: n)
qed

lemma pdfmark_toc_append:
  "pdfmark_toc (s @ t) = pdfmark_toc s @ pdfmark_toc t"
  by (induction s) (simp_all add: pdfmark_toc_Cons del: pdfmark_toc.simps(2))

lemma pdfmark_toc_preorder:
  "pdfmark_toc tree = map directive (preorder tree)"
proof (induction tree rule: pdfmark_toc.induct)
  case 1
  then show ?case by simp
next
  case (2 num title page children tree)
  show ?case
  proof (cases "children = []")
    case True
    with "2.IH"(2) show ?thesis by simp
  next
    case False
    with "2.IH" show ?thesis by simp
  qed
qed

text \<open>
  Claim C3. \<open>pdfmark_toc\<close> emits exactly one directive line per node, in depth-first
  pre-order: the output is the list of the nodes' directives along the pre-order
  traversal, so it is finite and as long as the tree has nodes. The line of a node comes
  after the lines of its earlier siblings' subtrees, before the lines of its own children,
  and those before the lines of its later siblings' subtrees.
\<close>

theorem pdfmark_toc_is_preorder:
  "pdfmark_toc tree = map directive (preorder tree) \<and>
   length (pdfmark_toc tree) = length (preorder tree) \<and>
   pdfmark_toc (before @ Node d ch # after) =
     pdfmark_toc before @ directive (Node d ch) # pdfmark_toc ch @ pdfmark_toc after"
proof -
  have a: "pdfmark_toc tree = map directive (preorder tree)"
    by (rule pdfmark_toc_preorder)
  have b: "pdfmark_toc (before @ Node d ch # after) =
     pdfmark_toc before @ directive (Node d ch) # pdfmark_toc ch @ pdfmark_toc after"
    by (simp add: pdfmark_toc_append pdfmark_toc_Cons del: pdfmark_toc.simps(2))
  from a b show ?thesis by simp
qed

lemma sublist_Cons_skip:
  "x \<noteq> y \<Longrightarrow> sublist (x # ps) (y # ys) = sublist (x # ps) ys"
  by (simp add: sublist_Cons_right)

lemma sublist_Cons_same:
  "sublist (x # ps) (x # ys) = (prefix ps ys \<or> sublist (x # ps) ys)"
  by (simp add: sublist_Cons_right)

lemma sublist_skip_free:
  "x \<notin> set us \<Longrightarrow> sublist (x # ps) (us @ vs) = sublist (x # ps) vs"
  by (induction us) (simp_all add: sublist_Cons_skip)

lemma leaf_line_no_count:
  assumes "CHR ''/'' \<notin> set num" "CHR ''/'' \<notin> set title" "CHR ''/'' \<notin> set pg"
  shows "\<not> sublist ''/Count'' (''[/Title ('' @ num @ '': '' @ title @ '') /Page '' @ pg
           @ '' /OUT pdfmark'' @ [CHR 0x0A])"
  using assms
  by (simp add: sublist_Cons_skip sublist_Cons_same sublist_skip_free)

lemma pdfmark_toc_nth:
  "i < length (preorder tree) \<Longrightarrow> pdfmark_toc tree ! i = directive (preorder tree ! i)"
  by (simp add: pdfmark_toc_preorder)

text \<open>
  Claim C2. The line emitted for a node (the line at the node's position in pre-order)
  is, for a node with \<open>k > 0\<close> direct children, the branch form that starts with
  \<open>[/Count -k\<close>, where \<open>k\<close> is printed in decimal and reads back as the number of direct
  children. For a node without children it is the leaf form, which starts with
  \<open>[/Title\<close>: it has no \<open>/Count\<close> field, and the text \<open>/Count\<close> does not occur in it
  at all unless the chapter number, title or page of the record bring a slash in.
\<close>

theorem pdfmark_toc_count:
  assumes "i < length (preorder tree)"
    and "preorder tree ! i = Node (num, title, page) ch"
  shows "(ch \<noteq> [] \<longrightarrow>
            pdfmark_toc tree ! i =
              ''[/Count -'' @ str_int (int (length ch)) @ '' /Title ('' @ num @ '': '' @ title
                @ '') /Page '' @ str_page page @ '' /OUT pdfmark'' @ [CHR 0x0A] \<and>
            int_of_str (str_int (int (length ch))) = Inr (int (length ch))) \<and>
         (ch = [] \<longrightarrow>
            pdfmark_toc tree ! i =
              ''[/Title ('' @ num @ '': '' @ title @ '') /Page '' @ str_page page
                @ '' /OUT pdfmark'' @ [CHR 0x0A] \<and>
            \<not> prefix ''[/Count'' (pdfmark_toc tree ! i) \<and>
            (CHR ''/'' \<notin> set num \<union> set title \<union> set (str_page page) \<longrightarrow>
               \<not> sublist ''/Count'' (pdfmark_toc tree ! i)))"
proof -
  have line: "pdfmark_toc tree ! i = directive (Node (num, title, page) ch)"
    using assms by (simp add: pdfmark_toc_nth)
  have a: "int_of_str (str_int (int (length ch))) = Inr (int (length ch))"
    by (rule int_of_str_str_int) simp
  have b: "\<not> sublist ''/Count'' (directive (Node (num, title, page) ch))"
    if "ch = []" "CHR ''/'' \<notin> set num \<union> set title \<union> set (str_page page)"
    using that leaf_line_no_count [of num title "str_page page"] by simp
  from a b show ?thesis
    unfolding line by simp
qed

theorem pdfmark_toc_count_witness:
  "1 < length (preorder [Node (''1.'', ''Intro'', PInt 2) [Node (''1.1'', ''Background'', PInt 3) []],
          Node (''2.'', ''Results'', PInt 5) []]) \<and>
   pdfmark_toc [Node (''1.'', ''Intro'', PInt 2) [Node (''1.1'', ''Background'', PInt 3) []],
          Node (''2.'', ''Results'', PInt 5) []] ! 0
     = ''[/Count -1 /Title (1.: Intro) /Page 2 /OUT pdfmark'' @ [CHR 0x0A] \<and>
   pdfmark_toc [Node (''1.'', ''Intro'', PInt 2) [Node (''1.1'', ''Background'', PInt 3) []],
          Node (''2.'', ''Results'', PInt 5) []] ! 1
     = ''[/Title (1.1: Background) /Page 3 /OUT pdfmark'' @ [CHR 0x0A] \<and>
   CHR ''/'' \<notin> set ''1.1'' \<union> set ''Background'' \<union> set (str_page (PInt 3)) \<and>
   \<not> sublist ''/Count'' (pdfmark_toc [Node (''1.'', ''Intro'', PInt 2) [Node (''1.1'', ''Background'', PInt 3) []],
          Node (''2.'', ''Results'', PInt 5) []] ! 1)"
proof -
  let ?c = "Node (''1.1'', ''Background'', PInt 3) []"
  let ?t = "[Node (''1.'', ''Intro'', PInt 2) [?c], Node (''2.'', ''Results'', PInt 5) []]"
  have p: "preorder ?t = [Node (''1.'', ''Intro'', PInt 2) [?c], ?c, Node (''2.'', ''Results'', PInt 5) []]"
    by simp
  have s: "str_int 1 = ''1''" "str_int 2 = ''2''" "str_int 3 = ''3''"
    by (simp_all add: str_int_def digits_of_nat.simps digit_char_def)
  have h0: "0 < length (preorder ?t)" and h1: "1 < length (preorder ?t)"
    unfolding p by simp_all
  have n0: "preorder ?t ! 0 = Node (''1.'', ''Intro'', PInt 2) [?c]"
    and n1: "preorder ?t ! 1 = Node (''1.1'', ''Background'', PInt 3) []"
    unfolding p by simp_all
  have f: "CHR ''/'' \<notin> set ''1.1'' \<union> set ''Background'' \<union> set (str_page (PInt 3))"
    by (simp add: s)
  from pdfmark_toc_count [OF h0 n0] pdfmark_toc_count [OF h1 n1] h1 f
  show ?thesis by (simp add: s)
qed

section \<open>Properties of the chunk writer\<close>

lemma concat_chunks:
  "concat (map (\<lambda>k. take N (drop (k * N) l)) [0..<m]) = take (m * N) l"
proof (induction m)
  case 0
  then show ?case by simp
next
  case (Suc m)
  have "take (m * N) l @ take N (drop (m * N) l) = take (m * N + N) l"
    by (simp add: take_add)
  with Suc show ?case by (simp add: add.commute)
qed

lemma py_range_pos:
  "0 < n \<Longrightarrow>
   py_range 0 (int len) n = Inr (map (\<lambda>k. int k * n) [0..<(len + nat n - 1) div nat n])"
proof -
  assume n: "0 < n"
  have "(int len + n - 1) div n = int ((len + nat n - 1) div nat n)"
    using n by (simp add: zdiv_int of_nat_diff)
  then show ?thesis using n by (simp add: py_range_def)
qed

lemma py_slice_chunk:
  "0 < n \<Longrightarrow> py_slice l (int k * n) (int k * n + n) = take (nat n) (drop (k * nat n) l)"
proof -
  assume n: "0 < n"
  have a: "nat (int k * n) = k * nat n"
    using n by (simp add: nat_mult_distrib)
  have b: "nat (int k * n + n) = k * nat n + nat n"
    using n by (simp add: nat_add_distrib nat_mult_distrib)
  have "0 \<le> int k * n"
    using n by (simp add: zero_le_mult_iff)
  with n have c: "\<not> int k * n < 0" "\<not> int k * n + n < 0"
    by linarith+
  show ?thesis
    by (simp add: py_slice_def slice_index_def c a b Let_def min_def)
qed


lemma chunk_count_covers:
  "0 < (N::nat) \<Longrightarrow> len \<le> ((len + N - 1) div N) * N"
proof -
  assume N: "0 < N"
  have "len + N - 1 = ((len + N - 1) div N) * N + (len + N - 1) mod N"
    by simp
  moreover have "(len + N - 1) mod N < N"
    using N by (rule mod_less_divisor)
  ultimately show ?thesis using N by linarith
qed

lemma chunk_start_inside:
  "0 < (N::nat) \<Longrightarrow> k < (len + N - 1) div N \<Longrightarrow> k * N < len"
proof -
  assume N: "0 < N" and k: "k < (len + N - 1) div N"
  from k have "Suc k \<le> (len + N - 1) div N" by simp
  then have "Suc k * N \<le> ((len + N - 1) div N) * N"
    by (rule mult_le_mono1)
  also have "\<dots> \<le> len + N - 1"
    by (rule div_times_less_eq_dividend)
  finally show ?thesis using N by simp
qed

text \<open>
  Claim C5, as amended. For every positive chunk size \<open>n\<close> and every list of lines,
  \<open>splitfiles\<close> returns consecutive chunks whose concatenation in order is the list
  itself. The chunk number \<open>k\<close> holds the lines from position \<open>k * n\<close> on, at most \<open>n\<close>
  of them and at least one, and is tagged with \<open>k * n\<close>, the zero-based position of its
  first line.
\<close>

theorem splitfiles_partition:
  assumes "0 < n"
  shows "\<exists>chunks. splitfiles l n = Inr chunks \<and>
           concat (map snd chunks) = l \<and>
           (\<forall>k<length chunks.
              chunks ! k = (int k * n, take (nat n) (drop (k * nat n) l)) \<and>
              snd (chunks ! k) \<noteq> [] \<and>
              length (snd (chunks ! k)) \<le> nat n \<and>
              hd (snd (chunks ! k)) = l ! nat (fst (chunks ! k)))"
proof -
  let ?N = "nat n"
  let ?m = "(length l + ?N - 1) div ?N"
  let ?chunks = "map (\<lambda>k. (int k * n, take ?N (drop (k * ?N) l))) [0..<?m]"
  from assms have N: "0 < ?N" by simp
  have s: "splitfiles l n = Inr ?chunks"
    using assms by (simp add: splitfiles_def py_range_pos py_slice_chunk comp_def)
  have "concat (map snd ?chunks) = take (?m * ?N) l"
    using concat_chunks [of ?N l ?m] by (simp add: comp_def)
  also have "\<dots> = l"
    using chunk_count_covers [OF N, of "length l"] by simp
  finally have c: "concat (map snd ?chunks) = l" .
  have e: "?chunks ! k = (int k * n, take ?N (drop (k * ?N) l)) \<and>
           snd (?chunks ! k) \<noteq> [] \<and> length (snd (?chunks ! k)) \<le> ?N \<and>
           hd (snd (?chunks ! k)) = l ! nat (fst (?chunks ! k))"
    if "k < length ?chunks" for k
  proof -
    from that have k: "k < ?m" by simp
    then have i: "k * ?N < length l" using N by (rule chunk_start_inside [rotated])
    have n1: "?chunks ! k = (int k * n, take ?N (drop (k * ?N) l))"
      using k by simp
    have n2: "take ?N (drop (k * ?N) l) \<noteq> []"
      using i N by simp
    have n3: "hd (take ?N (drop (k * ?N) l)) = l ! (k * ?N)"
      using i N by (simp add: hd_drop_conv_nth)
    have n4: "nat (int k * n) = k * ?N"
      using assms by (simp add: nat_mult_distrib)
    from n1 n2 n3 n4 show ?thesis by simp
  qed
  from s c e show ?thesis by blast
qed

theorem splitfiles_partition_witness:
  "(0::int) < 2 \<and>
   splitfiles [''a'', ''b'', ''c'', ''d'', ''e''] 2
     = Inr [(0, [''a'', ''b'']), (2, [''c'', ''d'']), (4, [''e''])] \<and>
   concat (map snd [(0::int, [''a'', ''b'']), (2, [''c'', ''d'']), (4, [''e''])])
     = [''a'', ''b'', ''c'', ''d'', ''e'']"
proof -
  have h: "(0::int) < 2" by simp
  have e: "splitfiles [''a'', ''b'', ''c'', ''d'', ''e''] 2
     = Inr [(0, [''a'', ''b'']), (2, [''c'', ''d'']), (4, [''e''])]"
    by code_simp
  from splitfiles_partition [OF h, of "[''a'', ''b'', ''c'', ''d'', ''e'']"] e
  show ?thesis by simp
qed

text \<open>With chunk size 0 the call of \<open>range\<close> raises, and no chunk is produced.\<close>

theorem splitfiles_zero_counterexample:
  "splitfiles [''a''] 0 = Inl ValueError"
  by (simp add: splitfiles_def py_range_def)

text \<open>A negative chunk size gives an empty range: no chunk at all, whatever the lines.\<close>

lemma splitfiles_negative:
  "n < 0 \<Longrightarrow> splitfiles l n = Inr []"
proof -
  assume n: "n < 0"
  have "(- int (length l) - n - 1) div (- n) \<le> 0"
  proof (cases "0 \<le> - int (length l) - n - 1")
    case True
    with n have "(- int (length l) - n - 1) div (- n) = 0"
      by (intro div_pos_pos_trivial) simp_all
    then show ?thesis by simp
  next
    case False
    with n have "(- int (length l) - n - 1) div (- n) < 0"
      by (intro div_neg_pos_less0) simp_all
    then show ?thesis by simp
  qed
  with n show ?thesis by (simp add: splitfiles_def py_range_def)
qed

section \<open>Pages along the pipeline\<close>

text \<open>
  Claim C9. The page of every record that \<open>tokenize\<close> yields, by either pattern, is a
  text: the digits matched at the end of the line, not an integer. \<open>apply_page_offset\<close>
  is where it becomes one. A record that goes from \<open>tokenize\<close> to \<open>tree_ize\<close> directly
  is in the tree as it was yielded, with its page still a text.
\<close>

theorem tokenize_page_is_text:
  assumes "i < length lines" and "tokenize_events lines ! i = Yield (num, title, page)"
  shows "(\<exists>d. page = PStr d \<and> page_text (lines ! i) d \<and>
              apply_page_offset [(num, title, page)] offset
                = Inr [(num, title, PInt (int (digits_val d) + offset))]) \<and>
         (num, title, page) \<in> set (tokenize lines) \<and>
         (\<exists>t. tree_ize get_matching_prfx (tokenize lines) = Inr t \<and>
              (num, title, page) \<in> set (flatten t))"
proof -
  from tokenize_events_yield [OF assms] obtain d where
    d: "page = PStr d" "page_text (lines ! i) d" by blast
  then have "py_int page = Inr (int (digits_val d))"
    by (simp add: page_text_def int_of_str_digits)
  then have a: "apply_page_offset [(num, title, page)] offset
                = Inr [(num, title, PInt (int (digits_val d) + offset))]"
    by simp
  have "Yield (num, title, page) \<in> set (tokenize_events lines)"
    using assms by (metis nth_mem tokenize_events_def tokenize_lines_length)
  then have b: "(num, title, page) \<in> set (tokenize lines)"
    unfolding tokenize_def set_yielded by simp
  obtain t where t: "tree_ize get_matching_prfx (tokenize lines) = Inr t"
    using tree_ize_default_total by blast
  from tree_ize_mset [OF t] have "set (flatten t) = set (tokenize lines)"
    by (rule mset_eq_setD)
  with a b d t show ?thesis by blast
qed

theorem tokenize_page_is_text_witness:
  "0 < length [''1. Intro 2'' @ [CHR 0x0A]] \<and>
   tokenize_events [''1. Intro 2'' @ [CHR 0x0A]] ! 0 = Yield (''1.'', ''Intro'', PStr ''2'') \<and>
   page_text ([''1. Intro 2'' @ [CHR 0x0A]] ! 0) ''2'' \<and>
   apply_page_offset [(''1.'', ''Intro'', PStr ''2'')] 10 = Inr [(''1.'', ''Intro'', PInt 12)] \<and>
   (''1.'', ''Intro'', PStr ''2'') \<in> set (tokenize [''1. Intro 2'' @ [CHR 0x0A]])"
proof -
  let ?L = "[''1. Intro 2'' @ [CHR 0x0A]]"
  have h1: "0 < length ?L" by simp
  have h2: "tokenize_events ?L ! 0 = Yield (''1.'', ''Intro'', PStr ''2'')" by code_simp
  have v: "digits_val ''2'' = 2" by code_simp
  from tokenize_page_is_text [OF h1 h2, of 10] h1 h2 show ?thesis
    by (auto simp: v)
qed

text \<open>
  The example of the specification, run through \<open>main\<close>'s pipeline with offsets 0 and 10.
\<close>

lemma pipeline_example:
  "apply_page_offset
     (tokenize [''1. Intro 2'' @ [CHR 0x0A], ''1.1 Background 3'' @ [CHR 0x0A],
                ''2. Results 5'' @ [CHR 0x0A]]) 0
   = Inr [(''1.'', ''Intro'', PInt 2), (''1.1'', ''Background'', PInt 3),
          (''2.'', ''Results'', PInt 5)]"
  "tree_ize get_matching_prfx
     [(''1.'', ''Intro'', PInt 2), (''1.1'', ''Background'', PInt 3), (''2.'', ''Results'', PInt 5)]
   = Inr [Node (''1.'', ''Intro'', PInt 2) [Node (''1.1'', ''Background'', PInt 3) []],
          Node (''2.'', ''Results'', PInt 5) []]"
  "pdfmark_toc [Node (''1.'', ''Intro'', PInt 2) [Node (''1.1'', ''Background'', PInt 3) []],
                Node (''2.'', ''Results'', PInt 5) []]
   = [''[/Count -1 /Title (1.: Intro) /Page 2 /OUT pdfmark'' @ [CHR 0x0A],
      ''[/Title (1.1: Background) /Page 3 /OUT pdfmark'' @ [CHR 0x0A],
      ''[/Title (2.: Results) /Page 5 /OUT pdfmark'' @ [CHR 0x0A]]"
  "apply_page_offset
     (tokenize [''1. Intro 2'' @ [CHR 0x0A], ''1.1 Background 3'' @ [CHR 0x0A],
                ''2. Results 5'' @ [CHR 0x0A]]) 10
   = Inr [(''1.'', ''Intro'', PInt 12), (''1.1'', ''Background'', PInt 13),
          (''2.'', ''Results'', PInt 15)]"
  "tokenize [''   just some noise without a page'' @ [CHR 0x0A]] = []"
  by code_simp+

end
